theory Spec2Isabelle
  imports Main "HOL-Library.Word"
begin

unbundle bit_operations_syntax

section \<open>The PIO IDE driver of src/drivers/ide.c\<close>

text \<open>
  The driver is embedded as state-passing functions over a record of everything it
  reads and writes: the buffer objects it links into its queue, raw memory for the swap
  path, its own static variables, the values the device will show on its ports, and a
  trace of the effects it has on the outside (port writes, data transfers, sleep and
  wakeup calls). Every function of ide.c is one definition of the same name.
\<close>

subsection \<open>Machine types and the constants of ide.c\<close>

type_synonym port = "16 word"
type_synonym uchar = "8 word"
type_synonym uint = "32 word"

text \<open>
  Register offsets are added to a channel base and the sum is passed to a parameter of
  type unsigned short; the sum is formed here at that width (truncation to 16 bits
  commutes with addition).
\<close>

definition ATA_CTRL :: port where "ATA_CTRL = 0x02"
definition ATA_SECCNT :: port where "ATA_SECCNT = 0x02"
definition ATA_SECTOR :: port where "ATA_SECTOR = 0x03"
definition ATA_CYL_LO :: port where "ATA_CYL_LO = 0x04"
definition ATA_CYL_HI :: port where "ATA_CYL_HI = 0x05"
definition ATA_SDH :: port where "ATA_SDH = 0x06"
definition ATA_COMMAND :: port where "ATA_COMMAND = 0x07"
definition ATA_STATUS :: port where "ATA_STATUS = 0x07"

definition ATA_SR_BSY :: uchar where "ATA_SR_BSY = 0x80"
definition ATA_SR_DF :: uchar where "ATA_SR_DF = 0x20"
definition ATA_SR_ERR :: uchar where "ATA_SR_ERR = 0x01"

definition ATA_CMD_READ :: uchar where "ATA_CMD_READ = 0x20"
definition ATA_CMD_WRITE :: uchar where "ATA_CMD_WRITE = 0x30"

definition IO_BASE0 :: port where "IO_BASE0 = 0x1F0"
definition IO_BASE1 :: port where "IO_BASE1 = 0x170"
definition IO_CTRL0 :: port where "IO_CTRL0 = 0x3F4"
definition IO_CTRL1 :: port where "IO_CTRL1 = 0x374"

definition FS_DEVNO :: uint where "FS_DEVNO = 1"
definition SWAP_DEVNO :: uint where "SWAP_DEVNO = 2"
definition SECTSIZE :: nat where "SECTSIZE = 512"

text \<open>
  The constants that ide.c takes from headers outside src/ (param.h, fs.h, buf.h) are
  parameters of the model: the size of the file system in blocks, the block size in
  bytes, and the three flag masks of a buffer.
\<close>

record hdr =
  FSSIZE :: uint
  BSIZE :: nat
  B_BUSY :: uint
  B_VALID :: uint
  B_DIRTY :: uint

text \<open>
  Modelled from the spec: struct buf is declared in buf.h, outside src/. The fields are
  those ide.c uses, by their names there: the flag word, the device id, the block
  number, the queue link (an address, 0 for the null pointer) and the block of bytes.
\<close>

record buf =
  flags :: uint
  dev :: uint
  blockno :: uint
  qnext :: nat
  data :: "uchar list"

subsection \<open>The state and the results of a call\<close>

datatype effect =
    Outb port uchar
  | Outsl port "uchar list"
  | Insl port nat
  | Sleep nat
  | Wakeup nat

text \<open>
  \<open>bufs\<close> is the store of buffer objects by address and \<open>mem\<close> the raw memory the swap
  path copies to and from. \<open>inb_in p\<close> lists the values that successive reads of the byte
  port \<open>p\<close> will return; \<open>insl_in p\<close> is the stream of bytes the data port \<open>p\<close> delivers and
  \<open>insl_pos p\<close> how many of them have been taken.
\<close>

record kstate =
  bufs :: "nat \<Rightarrow> buf"
  mem :: "nat \<Rightarrow> uchar"
  idelock :: bool
  idequeue :: nat
  havedisk1 :: int
  havedisk2 :: int
  inb_in :: "port \<Rightarrow> uchar list"
  insl_in :: "port \<Rightarrow> nat \<Rightarrow> uchar"
  insl_pos :: "port \<Rightarrow> nat"
  trace :: "effect list"

text \<open>
  A call returns (\<open>Ok\<close>), halts the system in \<open>panic\<close> (with the message and the state at
  the halt), never returns (\<open>Hang\<close>: it spins on a lock or on a status register; a run
  that reads past the end of a finite \<open>inb_in\<close> script has this result too), or
  dereferences the null pointer (\<open>Fault\<close>).
\<close>

datatype 'a res = Ok 'a | Panic string kstate | Hang | Fault

fun bindr :: "'a res \<Rightarrow> ('a \<Rightarrow> 'b res) \<Rightarrow> 'b res" where
  "bindr (Ok x) f = f x"
| "bindr (Panic m s) f = Panic m s"
| "bindr Hang f = Hang"
| "bindr Fault f = Fault"

subsection \<open>Port access, lock and scheduler primitives\<close>

definition inb :: "port \<Rightarrow> kstate \<Rightarrow> (uchar \<times> kstate) res" where
  "inb p s =
     (case inb_in s p of
        [] \<Rightarrow> Hang
      | r # rs \<Rightarrow> Ok (r, s\<lparr>inb_in := (inb_in s)(p := rs)\<rparr>))"

definition outb :: "port \<Rightarrow> uchar \<Rightarrow> kstate \<Rightarrow> kstate" where
  "outb p v s = s\<lparr>trace := trace s @ [Outb p v]\<rparr>"

text \<open>\<open>outsl\<close> pushes \<open>cnt\<close> 32-bit words, that is the first \<open>4 * cnt\<close> bytes at the address.\<close>

definition outsl :: "port \<Rightarrow> uchar list \<Rightarrow> nat \<Rightarrow> kstate \<Rightarrow> kstate" where
  "outsl p bytes cnt s = s\<lparr>trace := trace s @ [Outsl p (take (4 * cnt) bytes)]\<rparr>"

text \<open>\<open>insl\<close> pulls \<open>cnt\<close> 32-bit words from the port; the caller stores the bytes.\<close>

definition insl :: "port \<Rightarrow> nat \<Rightarrow> kstate \<Rightarrow> uchar list \<times> kstate" where
  "insl p cnt s =
     (map (insl_in s p) [insl_pos s p ..< insl_pos s p + 4 * cnt],
      s\<lparr>insl_pos := (insl_pos s)(p := insl_pos s p + 4 * cnt),
        trace := trace s @ [Insl p cnt]\<rparr>)"

definition insl_buf :: "port \<Rightarrow> nat \<Rightarrow> nat \<Rightarrow> kstate \<Rightarrow> kstate" where
  "insl_buf p b cnt s =
     (case insl p cnt s of
        (bytes, s1) \<Rightarrow>
          s1\<lparr>bufs := (bufs s1)(b := (bufs s1 b)\<lparr>data := bytes @ drop (4 * cnt) (data (bufs s1 b))\<rparr>)\<rparr>)"

definition insl_mem :: "port \<Rightarrow> nat \<Rightarrow> nat \<Rightarrow> kstate \<Rightarrow> kstate" where
  "insl_mem p dst cnt s =
     (case insl p cnt s of
        (bytes, s1) \<Rightarrow>
          s1\<lparr>mem := (\<lambda>a. if dst \<le> a \<and> a < dst + 4 * cnt then bytes ! (a - dst) else mem s1 a)\<rparr>)"

definition outsl_mem :: "port \<Rightarrow> nat \<Rightarrow> nat \<Rightarrow> kstate \<Rightarrow> kstate" where
  "outsl_mem p src cnt s = outsl p (map (mem s) [src ..< src + 4 * cnt]) cnt s"

text \<open>
  Modelled from the spec: the lock primitive (acquire and release, block until free) and
  the block and wake primitive are outside src/. Each driver function runs as one step;
  \<open>acquire\<close> on a held lock never returns, since nothing else runs to release it.
  \<open>sleep\<close> releases the lock and parks the caller on the channel; \<open>wakeup\<close> is recorded in
  the trace.
\<close>

definition acquire :: "kstate \<Rightarrow> kstate res" where
  "acquire s = (if idelock s then Hang else Ok (s\<lparr>idelock := True\<rparr>))"

definition release :: "kstate \<Rightarrow> kstate" where
  "release s = s\<lparr>idelock := False\<rparr>"

definition sleep :: "nat \<Rightarrow> kstate \<Rightarrow> kstate" where
  "sleep chan s = s\<lparr>idelock := False, trace := trace s @ [Sleep chan]\<rparr>"

definition wakeup :: "nat \<Rightarrow> kstate \<Rightarrow> kstate" where
  "wakeup chan s = s\<lparr>trace := trace s @ [Wakeup chan]\<rparr>"

subsection \<open>idewait\<close>

text \<open>The loop \<open>while ((r = inb(iobase + ATA_STATUS)) & ATA_SR_BSY);\<close> of idewait.\<close>

function idewait_spin :: "port \<Rightarrow> kstate \<Rightarrow> (uchar \<times> kstate) res" where
  "idewait_spin iobase s =
     (case inb (iobase + ATA_STATUS) s of
        Ok (r, s1) \<Rightarrow>
          if r AND ATA_SR_BSY \<noteq> 0 then idewait_spin iobase s1 else Ok (r, s1)
      | Panic m s1 \<Rightarrow> Panic m s1
      | Hang \<Rightarrow> Hang
      | Fault \<Rightarrow> Fault)"
  by pat_completeness auto
termination
  by (relation "measure (\<lambda>(iobase, s). length (inb_in s (iobase + ATA_STATUS)))")
    (auto simp: inb_def split: list.splits)

definition idewait :: "port \<Rightarrow> int \<Rightarrow> kstate \<Rightarrow> (int \<times> kstate) res" where
  "idewait iobase check_error s =
     bindr (idewait_spin iobase s) (\<lambda>(r, s1).
       if check_error \<noteq> 0 \<and> r AND (ATA_SR_DF OR ATA_SR_ERR) \<noteq> 0
       then Ok (- 1, s1)
       else Ok (0, s1))"

subsection \<open>ideinit\<close>

text \<open>
  The probe loop \<open>for(i=0; i<1000; i++) if(inb(port) != 0) { found; break; }\<close>, by the
  number of iterations left. \<open>initlock\<close> leaves the lock free; \<open>picenable\<close> and
  \<open>ioapicenable\<close> configure the interrupt controllers and touch nothing of this state.
\<close>

fun probe :: "nat \<Rightarrow> port \<Rightarrow> kstate \<Rightarrow> (bool \<times> kstate) res" where
  "probe 0 p s = Ok (False, s)"
| "probe (Suc n) p s =
     (case inb p s of
        Ok (r, s1) \<Rightarrow> if r \<noteq> 0 then Ok (True, s1) else probe n p s1
      | Panic m s1 \<Rightarrow> Panic m s1
      | Hang \<Rightarrow> Hang
      | Fault \<Rightarrow> Fault)"

definition ideinit :: "kstate \<Rightarrow> kstate res" where
  "ideinit s0 =
     (let s1 = s0\<lparr>idelock := False\<rparr> in
      bindr (idewait IO_BASE0 0 s1) (\<lambda>(r, s2).
        let s3 = outb (IO_BASE0 + ATA_SDH) (ucast (0xe0 OR push_bit 4 (FS_DEVNO AND 1))) s2 in
        bindr (probe 1000 (IO_BASE0 + ATA_STATUS) s3) (\<lambda>(found1, s4).
          let s5 = (if found1 then s4\<lparr>havedisk1 := 1\<rparr> else s4) in
          if havedisk1 s5 = 0 then Panic ''ide disk 1 not present'' s5
          else
            bindr (idewait IO_BASE1 0 s5) (\<lambda>(r, s6).
              let s7 = outb (IO_BASE1 + ATA_SDH) (ucast (0xe0 OR push_bit 4 (SWAP_DEVNO AND 1))) s6 in
              bindr (probe 1000 (IO_BASE1 + ATA_STATUS) s7) (\<lambda>(found2, s8).
                let s9 = (if found2 then s8\<lparr>havedisk2 := 1\<rparr> else s8) in
                if havedisk2 s9 = 0 then Panic ''ide disk 2(swap disk) not present'' s9
                else Ok (outb 0x1f6 (ucast ((0xe0 :: uint) OR push_bit 4 0)) s9))))))"

subsection \<open>idestart\<close>

text \<open>
  \<open>sector\<close> is an int holding the product of the unsigned block number and the sectors
  per block (32 bits, wrapping); its right shifts are arithmetic.
\<close>

definition idestart :: "hdr \<Rightarrow> nat \<Rightarrow> kstate \<Rightarrow> kstate res" where
  "idestart K b s =
     (if b = 0 then Panic ''idestart'' s
      else if FSSIZE K \<le> blockno (bufs s b) then Panic ''incorrect blockno'' s
      else
        let sector_per_block = BSIZE K div SECTSIZE;
            sector = blockno (bufs s b) * of_nat sector_per_block
        in
          if sector_per_block > 7 then Panic ''idestart'' s
          else
            bindr (idewait IO_BASE0 0 s) (\<lambda>(r, s1).
              let s2 = outb 0x3f6 0 s1;
                  s3 = outb 0x1f2 (of_nat sector_per_block) s2;
                  s4 = outb 0x1f3 (ucast (sector AND 0xff)) s3;
                  s5 = outb 0x1f4 (ucast (signed_drop_bit 8 sector AND 0xff)) s4;
                  s6 = outb 0x1f5 (ucast (signed_drop_bit 16 sector AND 0xff)) s5;
                  s7 = outb 0x1f6 (ucast (0xe0 OR push_bit 4 (dev (bufs s b) AND 1)
                                            OR (signed_drop_bit 24 sector AND 0x0f))) s6
              in
                if flags (bufs s7 b) AND B_DIRTY K \<noteq> 0
                then Ok (outsl 0x1f0 (data (bufs s7 b)) (BSIZE K div 4) (outb 0x1f7 ATA_CMD_WRITE s7))
                else Ok (outb 0x1f7 ATA_CMD_READ s7)))"

subsection \<open>ideintr\<close>

definition ideintr :: "hdr \<Rightarrow> kstate \<Rightarrow> kstate res" where
  "ideintr K s0 =
     bindr (acquire s0) (\<lambda>s1.
       let b = idequeue s1 in
       if b = 0 then Ok (release s1)
       else
         let s2 = s1\<lparr>idequeue := qnext (bufs s1 b)\<rparr> in
         bindr
           (if flags (bufs s2 b) AND B_DIRTY K = 0
            then bindr (idewait IO_BASE0 1 s2) (\<lambda>(r, s3).
                   if r \<ge> 0 then Ok (insl_buf 0x1f0 b (BSIZE K div 4) s3) else Ok s3)
            else Ok s2)
           (\<lambda>s4.
              let s5 = s4\<lparr>bufs := (bufs s4)(b := (bufs s4 b)\<lparr>flags := flags (bufs s4 b) OR B_VALID K\<rparr>)\<rparr>;
                  s6 = s5\<lparr>bufs := (bufs s5)(b := (bufs s5 b)\<lparr>flags := flags (bufs s5 b) AND NOT (B_DIRTY K)\<rparr>)\<rparr>;
                  s7 = wakeup b s6
              in
                bindr (if idequeue s7 \<noteq> 0 then idestart K (idequeue s7) s7 else Ok s7)
                  (\<lambda>s8. Ok (release s8))))"

subsection \<open>iderw\<close>

text \<open>
  The cursor \<open>pp\<close> of the append loop points either at the variable \<open>idequeue\<close> or at the
  \<open>qnext\<close> field of a buffer. The loop has no bound of its own: on a cyclic chain it
  never ends.
\<close>

datatype pref = P_idequeue | P_qnext nat

fun deref :: "kstate \<Rightarrow> pref \<Rightarrow> nat" where
  "deref s P_idequeue = idequeue s"
| "deref s (P_qnext a) = qnext (bufs s a)"

fun assign :: "pref \<Rightarrow> nat \<Rightarrow> kstate \<Rightarrow> kstate" where
  "assign P_idequeue v s = s\<lparr>idequeue := v\<rparr>"
| "assign (P_qnext a) v s = s\<lparr>bufs := (bufs s)(a := (bufs s a)\<lparr>qnext := v\<rparr>)\<rparr>"

partial_function (option) insert_queue :: "kstate \<Rightarrow> pref \<Rightarrow> pref option" where
  "insert_queue s pp = (if deref s pp \<noteq> 0 then insert_queue s (P_qnext (deref s pp)) else Some pp)"

text \<open>
  iderw runs up to its first \<open>sleep\<close> in one step. A call to \<open>sleep\<close> parks the
  caller: the step ends \<open>Blocked\<close>, and \<open>iderw_resume\<close> is the rest of the loop, run when
  the scheduler lets \<open>sleep\<close> return (with the lock taken again).
\<close>

datatype outcome = Returned | Blocked

definition iderw_wait :: "hdr \<Rightarrow> nat \<Rightarrow> kstate \<Rightarrow> (outcome \<times> kstate) res" where
  "iderw_wait K b s =
     (if flags (bufs s b) AND (B_VALID K OR B_DIRTY K) \<noteq> B_VALID K
      then Ok (Blocked, sleep b s)
      else Ok (Returned, release s))"

definition iderw_resume :: "hdr \<Rightarrow> nat \<Rightarrow> kstate \<Rightarrow> (outcome \<times> kstate) res" where
  "iderw_resume K b s = bindr (acquire s) (iderw_wait K b)"

definition iderw :: "hdr \<Rightarrow> nat \<Rightarrow> kstate \<Rightarrow> (outcome \<times> kstate) res" where
  "iderw K b s0 =
     (if b = 0 then Fault
      else if flags (bufs s0 b) AND B_BUSY K = 0 then Panic ''iderw: buf not busy'' s0
      else if flags (bufs s0 b) AND (B_VALID K OR B_DIRTY K) = B_VALID K
        then Panic ''iderw: nothing to do'' s0
      else if dev (bufs s0 b) \<noteq> 0 \<and> havedisk1 s0 = 0
        then Panic ''iderw: ide disk 1 not present'' s0
      else
        bindr (acquire s0) (\<lambda>s1.
          let s2 = s1\<lparr>bufs := (bufs s1)(b := (bufs s1 b)\<lparr>qnext := 0\<rparr>)\<rparr> in
          case insert_queue s2 P_idequeue of
            None \<Rightarrow> Hang
          | Some pp \<Rightarrow>
              let s3 = assign pp b s2 in
              bindr (if idequeue s3 = b then idestart K b s3 else Ok s3) (iderw_wait K b)))"

subsection \<open>read_swap and write_swap\<close>

text \<open>
  The sector loops, by the value of \<open>nsecs\<close>. The result is \<open>Some ret\<close> when the loop body
  returned from the function (after releasing the lock) and \<open>None\<close> when the loop ran out.
\<close>

fun read_swap_loop :: "nat \<Rightarrow> port \<Rightarrow> nat \<Rightarrow> kstate \<Rightarrow> (int option \<times> kstate) res" where
  "read_swap_loop 0 iobase dst s = Ok (None, s)"
| "read_swap_loop (Suc nsecs) iobase dst s =
     (case idewait iobase 1 s of
        Ok (ret, s1) \<Rightarrow>
          if ret \<noteq> 0 then Ok (Some ret, release s1)
          else read_swap_loop nsecs iobase (dst + SECTSIZE) (insl_mem iobase dst (SECTSIZE div 4) s1)
      | Panic m s1 \<Rightarrow> Panic m s1
      | Hang \<Rightarrow> Hang
      | Fault \<Rightarrow> Fault)"

fun write_swap_loop :: "nat \<Rightarrow> port \<Rightarrow> nat \<Rightarrow> kstate \<Rightarrow> (int option \<times> kstate) res" where
  "write_swap_loop 0 iobase src s = Ok (None, s)"
| "write_swap_loop (Suc nsecs) iobase src s =
     (case idewait iobase 1 s of
        Ok (ret, s1) \<Rightarrow>
          if ret \<noteq> 0 then Ok (Some ret, release s1)
          else write_swap_loop nsecs iobase (src + SECTSIZE) (outsl_mem iobase src (SECTSIZE div 4) s1)
      | Panic m s1 \<Rightarrow> Panic m s1
      | Hang \<Rightarrow> Hang
      | Fault \<Rightarrow> Fault)"

definition swap_setup :: "uint \<Rightarrow> uchar \<Rightarrow> kstate \<Rightarrow> kstate" where
  "swap_setup secno cmd s =
     (let ideno = SWAP_DEVNO; iobase = IO_BASE1; ioctrl = IO_CTRL1; nsecs = (8 :: uint);
          s1 = outb (ioctrl + ATA_CTRL) 0 s;
          s2 = outb (iobase + ATA_SECCNT) (ucast nsecs) s1;
          s3 = outb (iobase + ATA_SECTOR) (ucast (secno AND 0xFF)) s2;
          s4 = outb (iobase + ATA_CYL_LO) (ucast (drop_bit 8 secno AND 0xFF)) s3;
          s5 = outb (iobase + ATA_CYL_HI) (ucast (drop_bit 16 secno AND 0xFF)) s4;
          s6 = outb (iobase + ATA_SDH)
                 (ucast (0xE0 OR push_bit 4 (ideno AND 1) OR (drop_bit 24 secno AND 0xF))) s5
      in outb (iobase + ATA_COMMAND) cmd s6)"

definition read_swap :: "uint \<Rightarrow> nat \<Rightarrow> kstate \<Rightarrow> (int \<times> kstate) res" where
  "read_swap secno dst s0 =
     bindr (acquire s0) (\<lambda>s1.
       bindr (idewait IO_BASE1 0 s1) (\<lambda>(r, s2).
         bindr (read_swap_loop 8 IO_BASE1 dst (swap_setup secno ATA_CMD_READ s2)) (\<lambda>(ret, s3).
           case ret of
             Some v \<Rightarrow> Ok (v, s3)
           | None \<Rightarrow> Ok (0, release s3))))"

definition write_swap :: "uint \<Rightarrow> nat \<Rightarrow> kstate \<Rightarrow> (int \<times> kstate) res" where
  "write_swap secno src s0 =
     bindr (acquire s0) (\<lambda>s1.
       bindr (idewait IO_BASE1 0 s1) (\<lambda>(r, s2).
         bindr (write_swap_loop 8 IO_BASE1 src (swap_setup secno ATA_CMD_WRITE s2)) (\<lambda>(ret, s3).
           case ret of
             Some v \<Rightarrow> Ok (v, s3)
           | None \<Rightarrow> Ok (0, release s3))))"

section \<open>Vocabulary of the properties\<close>

subsection \<open>Flag masks\<close>

text \<open>
  The three flag masks are single bits of the flag word, each a different one. A flag is
  set in a flag word when its bit is.
\<close>

definition flag_bit :: "uint \<Rightarrow> bool" where
  "flag_bit w = (\<exists>n \<in> {0..<32}. w = 2 ^ n)"

definition flags_ok :: "hdr \<Rightarrow> bool" where
  "flags_ok K =
     (flag_bit (B_BUSY K) \<and> flag_bit (B_VALID K) \<and> flag_bit (B_DIRTY K) \<and>
      B_BUSY K \<noteq> B_VALID K \<and> B_BUSY K \<noteq> B_DIRTY K \<and> B_VALID K \<noteq> B_DIRTY K)"

definition flag_set :: "uint \<Rightarrow> uint \<Rightarrow> bool" where
  "flag_set f m = (f AND m = m)"

subsection \<open>Status scripts\<close>

definition busy :: "uchar \<Rightarrow> bool" where
  "busy r = (r AND ATA_SR_BSY \<noteq> 0)"

definition failed :: "uchar \<Rightarrow> bool" where
  "failed r = (r AND (ATA_SR_DF OR ATA_SR_ERR) \<noteq> 0)"

text \<open>
  The first status value of a script without the busy bit, and the script after it: what
  one call of idewait reads. \<open>readies\<close> lists the values that successive calls return on.
\<close>

fun next_ready :: "uchar list \<Rightarrow> (uchar \<times> uchar list) option" where
  "next_ready [] = None"
| "next_ready (r # rs) = (if busy r then next_ready rs else Some (r, rs))"

definition readies :: "uchar list \<Rightarrow> uchar list" where
  "readies rs = filter (\<lambda>r. \<not> busy r) rs"

definition polled :: "port \<Rightarrow> uchar list \<Rightarrow> kstate \<Rightarrow> kstate" where
  "polled p rs s = s\<lparr>inb_in := (inb_in s)(p := rs)\<rparr>"

subsection \<open>The port traffic of one request\<close>

text \<open>
  The register writes by which idestart programs a transfer of buffer \<open>x\<close>, and its
  whole traffic: the registers, the command, and the block pushed after a write command.
\<close>

definition start_sector :: "hdr \<Rightarrow> buf \<Rightarrow> uint" where
  "start_sector K x = blockno x * of_nat (BSIZE K div SECTSIZE)"

definition start_regs :: "hdr \<Rightarrow> buf \<Rightarrow> effect list" where
  "start_regs K x =
     [Outb 0x3f6 0,
      Outb 0x1f2 (of_nat (BSIZE K div SECTSIZE)),
      Outb 0x1f3 (ucast (start_sector K x AND 0xff)),
      Outb 0x1f4 (ucast (signed_drop_bit 8 (start_sector K x) AND 0xff)),
      Outb 0x1f5 (ucast (signed_drop_bit 16 (start_sector K x) AND 0xff)),
      Outb 0x1f6 (ucast (0xe0 OR push_bit 4 (dev x AND 1)
                          OR (signed_drop_bit 24 (start_sector K x) AND 0x0f)))]"

definition start_io :: "hdr \<Rightarrow> buf \<Rightarrow> effect list" where
  "start_io K x =
     start_regs K x @
     (if flags x AND B_DIRTY K \<noteq> 0
      then [Outb 0x1f7 0x30, Outsl 0x1f0 (take (4 * (BSIZE K div 4)) (data x))]
      else [Outb 0x1f7 0x20])"

fun effect_ports :: "effect \<Rightarrow> port list" where
  "effect_ports (Outb p v) = [p]"
| "effect_ports (Outsl p bytes) = [p]"
| "effect_ports (Insl p cnt) = [p]"
| "effect_ports (Sleep chan) = []"
| "effect_ports (Wakeup chan) = []"

definition primary_port :: "port \<Rightarrow> bool" where
  "primary_port p = ((0x1f0 \<le> p \<and> p \<le> 0x1f7) \<or> p = 0x3f6)"

definition secondary_port :: "port \<Rightarrow> bool" where
  "secondary_port p = ((0x170 \<le> p \<and> p \<le> 0x177) \<or> p = 0x376)"

text \<open>The effects a call added to the trace, and the state a call ended in.\<close>

definition added :: "kstate \<Rightarrow> kstate \<Rightarrow> effect list" where
  "added s s' = drop (length (trace s)) (trace s')"

subsection \<open>Histories of driver calls\<close>

text \<open>
  A history is a list of driver events: a thread calls iderw on a buffer, the interrupt
  handler runs, or a thread parked inside iderw is let run again (at any time: the loop
  of iderw tests its condition again). A configuration is the driver state with the
  buffers whose callers are parked inside iderw.
\<close>

datatype event = Call nat | Intr | Resume nat

type_synonym config = "kstate \<times> nat list"

fun step :: "hdr \<Rightarrow> event \<Rightarrow> config \<Rightarrow> config res" where
  "step K (Call b) (s, ws) =
     bindr (iderw K b s) (\<lambda>(oc, s'). Ok (s', if oc = Blocked then ws @ [b] else ws))"
| "step K Intr (s, ws) = bindr (ideintr K s) (\<lambda>s'. Ok (s', ws))"
| "step K (Resume b) (s, ws) =
     (if b \<in> set ws
      then bindr (iderw_resume K b s)
             (\<lambda>(oc, s'). Ok (s', if oc = Returned then remove1 b ws else ws))
      else Ok (s, ws))"

fun run :: "hdr \<Rightarrow> event list \<Rightarrow> config \<Rightarrow> config res" where
  "run K [] c = Ok c"
| "run K (e # es) c = bindr (step K e c) (run K es)"

text \<open>
  A history respects ownership when no buffer is passed to iderw while an earlier call
  of iderw on it has not returned.
\<close>

fun call_free :: "event \<Rightarrow> config \<Rightarrow> bool" where
  "call_free (Call b) (s, ws) = (b \<notin> set ws)"
| "call_free Intr c = True"
| "call_free (Resume b) c = True"

fun owned :: "hdr \<Rightarrow> event list \<Rightarrow> config \<Rightarrow> bool" where
  "owned K [] c = True"
| "owned K (e # es) c =
     (call_free e c \<and> (case step K e c of Ok c' \<Rightarrow> owned K es c' | _ \<Rightarrow> True))"

text \<open>
  Commands in flight along a trace: a write to the command register of the primary
  channel starts one, a wakeup marks one completion processed. \<open>pending n tr\<close> is the
  number in flight after \<open>tr\<close>, from \<open>n\<close>; \<open>one_at_a_time n tr\<close> says it never exceeds one.
\<close>

fun count_effect :: "nat \<Rightarrow> effect \<Rightarrow> nat" where
  "count_effect n (Outb p v) = (if p = 0x1f7 then n + 1 else n)"
| "count_effect n (Wakeup chan) = n - 1"
| "count_effect n (Outsl p bytes) = n"
| "count_effect n (Insl p cnt) = n"
| "count_effect n (Sleep chan) = n"

fun pending :: "nat \<Rightarrow> effect list \<Rightarrow> nat" where
  "pending n [] = n"
| "pending n (e # es) = pending (count_effect n e) es"

fun one_at_a_time :: "nat \<Rightarrow> effect list \<Rightarrow> bool" where
  "one_at_a_time n [] = True"
| "one_at_a_time n (e # es) = (count_effect n e \<le> 1 \<and> one_at_a_time (count_effect n e) es)"

text \<open>The chain of buffers from a pointer along \<open>qnext\<close> to the null pointer.\<close>

fun qpath :: "(nat \<Rightarrow> buf) \<Rightarrow> nat \<Rightarrow> nat list \<Rightarrow> bool" where
  "qpath h p [] = (p = 0)"
| "qpath h p (a # as) = (p = a \<and> a \<noteq> 0 \<and> qpath h (qnext (h a)) as)"

fun res_trace :: "config res \<Rightarrow> effect list" where
  "res_trace (Ok (s, ws)) = trace s"
| "res_trace (Panic m s) = trace s"
| "res_trace Hang = []"
| "res_trace Fault = []"

subsection \<open>The entry contract of iderw\<close>

text \<open>The two tests on the flag word that iderw makes before anything else.\<close>

definition iderw_contract :: "hdr \<Rightarrow> buf \<Rightarrow> bool" where
  "iderw_contract K x =
     (flags x AND B_BUSY K \<noteq> 0 \<and> flags x AND (B_VALID K OR B_DIRTY K) \<noteq> B_VALID K)"

subsection \<open>Example values\<close>

text \<open>
  Concrete header constants, a buffer and an idle driver state, on which the theorems
  below are instantiated: block size one sector, a file system of 1000 blocks, a device
  whose status register reads ready (0x50) and a data port that delivers zeros.
\<close>

definition hdr_example :: hdr where
  "hdr_example = \<lparr>FSSIZE = 1000, BSIZE = 512, B_BUSY = 1, B_VALID = 2, B_DIRTY = 4\<rparr>"

definition buf_example :: buf where
  "buf_example = \<lparr>flags = 1, dev = 0, blockno = 0, qnext = 0, data = []\<rparr>"

definition idle_example :: kstate where
  "idle_example =
     \<lparr>bufs = (\<lambda>a. buf_example), mem = (\<lambda>a. 0), idelock = False, idequeue = 0,
      havedisk1 = 1, havedisk2 = 1, inb_in = (\<lambda>p. [0x50, 0x50, 0x50, 0x50]),
      insl_in = (\<lambda>p i. 0), insl_pos = (\<lambda>p. 0), trace = []\<rparr>"

definition with_buf :: "nat \<Rightarrow> buf \<Rightarrow> kstate \<Rightarrow> kstate" where
  "with_buf a x s = s\<lparr>bufs := (bufs s)(a := x)\<rparr>"

subsection \<open>The parts of ideintr\<close>

text \<open>
  The two middle parts of ideintr on the popped buffer \<open>b\<close>, with idewait written by its
  outcome on the status script: the conditional read of the block from the data port,
  and the update of the flags followed by the wakeup.
\<close>

definition read_back :: "hdr \<Rightarrow> nat \<Rightarrow> kstate \<Rightarrow> kstate res" where
  "read_back K b s =
     (if flags (bufs s b) AND B_DIRTY K = 0
      then (case next_ready (inb_in s 0x1f7) of
              None \<Rightarrow> Hang
            | Some (r, rs) \<Rightarrow>
                Ok (if failed r then polled 0x1f7 rs s
                    else insl_buf 0x1f0 b (BSIZE K div 4) (polled 0x1f7 rs s)))
      else Ok s)"

definition completed :: "hdr \<Rightarrow> nat \<Rightarrow> kstate \<Rightarrow> kstate" where
  "completed K b s =
     wakeup b (s\<lparr>bufs := (bufs s)(b := (bufs s b)
                 \<lparr>flags := (flags (bufs s b) OR B_VALID K) AND NOT (B_DIRTY K)\<rparr>)\<rparr>)"

definition failing_read_example :: kstate where
  "failing_read_example = idle_example\<lparr>idequeue := 1, inb_in := (\<lambda>p. [0x51, 0x50])\<rparr>"

subsection \<open>The swap path\<close>

text \<open>
  The register writes of read_swap and write_swap for a starting sector and a command.
  \<open>sectors_ok n k rd\<close> describes the status values \<open>rd\<close> that the sector waits of a transfer
  of \<open>n\<close> sectors return on: the first \<open>k\<close> show no fault and, when \<open>k < n\<close>, the next shows
  one.
\<close>

definition swap_regs :: "uint \<Rightarrow> uchar \<Rightarrow> effect list" where
  "swap_regs secno cmd =
     [Outb 0x376 0,
      Outb 0x172 8,
      Outb 0x173 (ucast (secno AND 0xFF)),
      Outb 0x174 (ucast (drop_bit 8 secno AND 0xFF)),
      Outb 0x175 (ucast (drop_bit 16 secno AND 0xFF)),
      Outb 0x176 (ucast (0xE0 OR push_bit 4 (SWAP_DEVNO AND 1) OR (drop_bit 24 secno AND 0xF))),
      Outb 0x177 cmd]"

definition sectors_ok :: "nat \<Rightarrow> nat \<Rightarrow> uchar list \<Rightarrow> bool" where
  "sectors_ok n k rd =
     (k \<le> n \<and> k \<le> length rd \<and> list_all (\<lambda>r. \<not> failed r) (take k rd) \<and>
      (if k < n then k < length rd \<and> failed (rd ! k) else True))"

definition swap_fault_example :: kstate where
  "swap_fault_example =
     idle_example\<lparr>inb_in := (\<lambda>p. [0x50, 0x50, 0x50, 0x50, 0x51]), insl_in := (\<lambda>p i. 0xAB)\<rparr>"

subsection \<open>The parts of iderw\<close>

text \<open>The state of iderw after it has taken the lock and cleared the link of \<open>b\<close>.\<close>

definition unlinked :: "nat \<Rightarrow> kstate \<Rightarrow> kstate" where
  "unlinked b s = s\<lparr>idelock := True, bufs := (bufs s)(b := (bufs s b)\<lparr>qnext := 0\<rparr>)\<rparr>"

subsection \<open>Parked callers\<close>

text \<open>Every buffer whose caller is parked inside iderw has BUSY in its flag word.\<close>

definition parked_busy :: "hdr \<Rightarrow> config \<Rightarrow> bool" where
  "parked_busy K c = (\<forall>b \<in> set (snd c). flags (bufs (fst c) b) AND B_BUSY K \<noteq> 0)"

definition write_example :: kstate where
  "write_example = with_buf 1 (buf_example\<lparr>flags := 5\<rparr>) idle_example"

definition queue_example :: kstate where
  "queue_example =
     with_buf 4 (buf_example\<lparr>flags := 0\<rparr>) (with_buf 2 (buf_example\<lparr>flags := 5\<rparr>) write_example)"

subsection \<open>The queue invariant\<close>

text \<open>
  The queue is a chain without repetition of buffers whose callers are parked and whose
  flag words still fail the test iderw waits for; the trace has had at most one command
  in flight at any time, and has one in flight now exactly when the queue is not empty.
\<close>

definition queue_inv :: "hdr \<Rightarrow> config \<Rightarrow> bool" where
  "queue_inv K c =
     (\<exists>as. qpath (bufs (fst c)) (idequeue (fst c)) as \<and> distinct as \<and>
           set as \<subseteq> set (snd c) \<and>
           (\<forall>a \<in> set as. flags (bufs (fst c) a) AND (B_VALID K OR B_DIRTY K) \<noteq> B_VALID K) \<and>
           one_at_a_time 0 (trace (fst c)) \<and>
           pending 0 (trace (fst c)) = (if idequeue (fst c) = 0 then 0 else 1))"

subsection \<open>Which ports a call touches\<close>

text \<open>
  A call from \<open>s\<close> to \<open>s'\<close> touches only ports in \<open>P\<close>: the trace of \<open>s'\<close> extends that of
  \<open>s\<close> by effects on ports in \<open>P\<close>, and the input of every other port is where it was.
  \<open>drive_select d\<close> replaces bit 4 of the byte written to the drive/head register 0x1f6 by
  the low bit of \<open>d\<close> and leaves every other effect as it is.
\<close>

definition touches_only :: "(port \<Rightarrow> bool) \<Rightarrow> kstate \<Rightarrow> kstate \<Rightarrow> bool" where
  "touches_only P s s' =
     (take (length (trace s)) (trace s') = trace s \<and>
      (\<forall>e \<in> set (added s s'). \<forall>p \<in> set (effect_ports e). P p) \<and>
      (\<forall>p. \<not> P p \<longrightarrow> inb_in s' p = inb_in s p \<and> insl_pos s' p = insl_pos s p))"

fun drive_select :: "uint \<Rightarrow> effect \<Rightarrow> effect" where
  "drive_select d (Outb p v) =
     (if p = 0x1f6 then Outb p ((v AND NOT 0x10) OR push_bit 4 (ucast (d AND 1))) else Outb p v)"
| "drive_select d (Outsl p bytes) = Outsl p bytes"
| "drive_select d (Insl p cnt) = Insl p cnt"
| "drive_select d (Sleep chan) = Sleep chan"
| "drive_select d (Wakeup chan) = Wakeup chan"

fun final_trace :: "kstate res \<Rightarrow> effect list" where
  "final_trace (Ok s) = trace s"
| "final_trace (Panic m s) = trace s"
| "final_trace Hang = []"
| "final_trace Fault = []"

fun returns :: "'a res \<Rightarrow> bool" where
  "returns (Ok x) = True"
| "returns (Panic m s) = False"
| "returns Hang = False"
| "returns Fault = False"

definition boot_example :: kstate where
  "boot_example = idle_example\<lparr>havedisk1 := 0, havedisk2 := 0\<rparr>"

definition booted_example :: kstate where
  "booted_example =
     boot_example\<lparr>havedisk1 := 1, havedisk2 := 1,
       inb_in := (inb_in boot_example)(0x1f7 := [0x50, 0x50], 0x177 := [0x50, 0x50]),
       trace := [Outb 0x1f6 0xf0, Outb 0x176 0xe0, Outb 0x1f6 0xe0]\<rparr>"

section \<open>Basic facts\<close>

declare idewait_spin.simps [simp del]

lemma flag_bit_and: "flag_bit w \<Longrightarrow> f AND w = 0 \<or> f AND w = w"
  unfolding flag_bit_def
  by (auto simp: bit_eq_iff [where ?'a = uint] bit_simps)

lemma flag_bit_nz: "flag_bit w \<Longrightarrow> w \<noteq> 0"
  unfolding flag_bit_def by auto

lemma flag_clear_iff: "flag_bit w \<Longrightarrow> (f AND w = 0) = (\<not> flag_set f w)"
  using flag_bit_and [of w f] flag_bit_nz [of w] by (auto simp: flag_set_def)

lemma flag_bit_disj: "flag_bit v \<Longrightarrow> flag_bit w \<Longrightarrow> v \<noteq> w \<Longrightarrow> v AND w = 0"
  unfolding flag_bit_def
  by (auto simp: bit_eq_iff [where ?'a = uint] bit_simps)

lemma or_and_absorb: "(v OR d) AND d = (d :: uint)"
  by (auto simp: bit_eq_iff [where ?'a = uint] bit_simps)

lemma settled_iff:
  assumes "flag_bit v" "flag_bit d" "v \<noteq> d"
  shows "(f AND (v OR d) = v) = (flag_set f v \<and> \<not> flag_set f d)"
proof -
  have dis: "v AND d = 0"
    using assms by (rule flag_bit_disj)
  have split: "f AND (v OR d) = (f AND v) OR (f AND d)"
    by (simp add: bit.conj_disj_distrib)
  have nz: "v \<noteq> 0" "d \<noteq> 0"
    using assms flag_bit_nz by auto
  have both: "v OR d \<noteq> v"
  proof
    assume "v OR d = v"
    then have "v AND d = d"
      using or_and_absorb [of v d] by simp
    with dis nz show False by simp
  qed
  show ?thesis
    using flag_bit_and [OF assms(1), of f] flag_bit_and [OF assms(2), of f] nz both assms(3)
    by (auto simp: split flag_set_def)
qed

lemma done_flags:
  "flag_bit v \<Longrightarrow> flag_bit d \<Longrightarrow> v \<noteq> d \<Longrightarrow>
   ((f OR v) AND NOT d) AND (v OR d) = v"
  unfolding flag_bit_def
  by (auto simp: bit_eq_iff [where ?'a = uint] bit_simps)

lemma keep_flag:
  "flag_bit v \<Longrightarrow> flag_bit d \<Longrightarrow> flag_bit b \<Longrightarrow> b \<noteq> v \<Longrightarrow> b \<noteq> d \<Longrightarrow>
   ((f OR v) AND NOT d) AND b = f AND b"
  unfolding flag_bit_def
  by (auto simp: bit_eq_iff [where ?'a = uint] bit_simps)

lemma idewait_spin_list:
  "inb_in s (iobase + ATA_STATUS) = rs \<Longrightarrow>
   idewait_spin iobase s =
     (case next_ready rs of
        None \<Rightarrow> Hang
      | Some (r, rest) \<Rightarrow> Ok (r, polled (iobase + ATA_STATUS) rest s))"
proof (induction rs arbitrary: s)
  case Nil
  then show ?case
    by (subst idewait_spin.simps) (simp add: inb_def)
next
  case (Cons r rs)
  show ?case
  proof (cases "busy r")
    case True
    have "idewait_spin iobase s = idewait_spin iobase (polled (iobase + ATA_STATUS) rs s)"
      using Cons.prems True by (subst idewait_spin.simps) (simp add: inb_def busy_def polled_def)
    moreover have "inb_in (polled (iobase + ATA_STATUS) rs s) (iobase + ATA_STATUS) = rs"
      by (simp add: polled_def)
    ultimately show ?thesis
      using Cons.IH [of "polled (iobase + ATA_STATUS) rs s"] True
      by (simp add: polled_def split: option.splits)
  next
    case False
    then show ?thesis
      using Cons.prems by (subst idewait_spin.simps) (simp add: inb_def busy_def polled_def)
  qed
qed

lemma idewait_eq:
  "idewait iobase ce s =
     (case next_ready (inb_in s (iobase + ATA_STATUS)) of
        None \<Rightarrow> Hang
      | Some (r, rs) \<Rightarrow>
          Ok (if ce \<noteq> 0 \<and> failed r then - 1 else 0, polled (iobase + ATA_STATUS) rs s))"
  by (simp add: idewait_def idewait_spin_list [OF refl] failed_def split: option.splits)

lemma idewait_Ok: "idewait io ce s = Ok (r, s1) \<Longrightarrow> \<exists>rs. s1 = polled (io + ATA_STATUS) rs s"
  by (auto simp: idewait_eq split: option.splits)

lemma next_ready_readies:
  "next_ready rs = Some (r, rest) \<Longrightarrow> readies rs = r # readies rest"
  by (induction rs) (auto simp: readies_def split: if_splits)

lemma next_ready_None: "next_ready rs = None \<Longrightarrow> readies rs = []"
  by (induction rs) (auto simp: readies_def split: if_splits)

lemma next_ready_Some:
  "readies rs \<noteq> [] \<Longrightarrow>
   \<exists>rest. next_ready rs = Some (hd (readies rs), rest) \<and> readies rest = tl (readies rs)"
  by (induction rs) (auto simp: readies_def split: if_splits)

lemma status0: "IO_BASE0 + ATA_STATUS = 0x1f7"
  by (simp add: IO_BASE0_def ATA_STATUS_def)

lemma status1: "IO_BASE1 + ATA_STATUS = 0x177"
  by (simp add: IO_BASE1_def ATA_STATUS_def)

lemma idestart_eq:
  "idestart K b s =
     (if b = 0 then Panic ''idestart'' s
      else if FSSIZE K \<le> blockno (bufs s b) then Panic ''incorrect blockno'' s
      else if 7 < BSIZE K div SECTSIZE then Panic ''idestart'' s
      else case next_ready (inb_in s 0x1f7) of
             None \<Rightarrow> Hang
           | Some (r, rs) \<Rightarrow>
               Ok (s\<lparr>inb_in := (inb_in s)(0x1f7 := rs),
                     trace := trace s @ start_io K (bufs s b)\<rparr>))"
  by (simp add: idestart_def idewait_eq status0 polled_def outb_def outsl_def Let_def
      start_io_def start_regs_def start_sector_def ATA_CMD_READ_def ATA_CMD_WRITE_def
      split: option.splits)

lemma idestart_Panic:
  "idestart K b s = Panic m s' \<Longrightarrow> s' = s \<and> (m = ''idestart'' \<or> m = ''incorrect blockno'')"
  by (auto simp: idestart_eq split: if_splits option.splits)

lemma idestart_Ok:
  "idestart K b s = Ok s' \<Longrightarrow>
   \<exists>rs. s' = s\<lparr>inb_in := (inb_in s)(0x1f7 := rs), trace := trace s @ start_io K (bufs s b)\<rparr>"
  by (auto simp: idestart_eq split: if_splits option.splits)

lemma idestart_not_Fault: "idestart K b s \<noteq> Fault"
  by (auto simp: idestart_eq split: if_splits option.splits)

lemma bindr_Panic:
  "(bindr m f = Panic msg s') = (m = Panic msg s' \<or> (\<exists>x. m = Ok x \<and> f x = Panic msg s'))"
  by (cases m) auto

lemma bindr_Ok: "(bindr m f = Ok y) = (\<exists>x. m = Ok x \<and> f x = Ok y)"
  by (cases m) auto

lemma probe_havedisk:
  "probe n p s = Ok (f, s') \<Longrightarrow> havedisk1 s' = havedisk1 s \<and> havedisk2 s' = havedisk2 s"
proof (induction n arbitrary: s)
  case 0
  then show ?case by simp
next
  case (Suc n)
  then show ?case
    by (cases "inb_in s p") (auto simp: inb_def split: if_splits)
qed

text \<open>When ideinit returns, both presence flags are set.\<close>

lemma ideinit_havedisk:
  assumes "ideinit s = Ok s'"
  shows "havedisk1 s' \<noteq> 0 \<and> havedisk2 s' \<noteq> 0"
proof -
  from assms obtain r s2 found1 s4 where
    p1: "probe 1000 (IO_BASE0 + ATA_STATUS)
           (outb (IO_BASE0 + ATA_SDH) (ucast (0xe0 OR push_bit 4 (FS_DEVNO AND 1))) s2) = Ok (found1, s4)"
    and rest: "(let s5 = (if found1 then s4\<lparr>havedisk1 := 1\<rparr> else s4) in
          if havedisk1 s5 = 0 then Panic ''ide disk 1 not present'' s5
          else
            bindr (idewait IO_BASE1 0 s5) (\<lambda>(r, s6).
              let s7 = outb (IO_BASE1 + ATA_SDH) (ucast (0xe0 OR push_bit 4 (SWAP_DEVNO AND 1))) s6 in
              bindr (probe 1000 (IO_BASE1 + ATA_STATUS) s7) (\<lambda>(found2, s8).
                let s9 = (if found2 then s8\<lparr>havedisk2 := 1\<rparr> else s8) in
                if havedisk2 s9 = 0 then Panic ''ide disk 2(swap disk) not present'' s9
                else Ok (outb 0x1f6 (ucast ((0xe0 :: uint) OR push_bit 4 0)) s9)))) = Ok s'"
    by (auto simp: ideinit_def bindr_Ok Let_def)
  let ?s5 = "if found1 then s4\<lparr>havedisk1 := 1\<rparr> else s4"
  from rest have h1: "havedisk1 ?s5 \<noteq> 0"
    by (auto simp: Let_def split: if_splits)
  with rest obtain r6 s6 found2 s8 where w: "idewait IO_BASE1 0 ?s5 = Ok (r6, s6)"
    and p2: "probe 1000 (IO_BASE1 + ATA_STATUS)
           (outb (IO_BASE1 + ATA_SDH) (ucast (0xe0 OR push_bit 4 (SWAP_DEVNO AND 1))) s6) = Ok (found2, s8)"
    and fin: "(let s9 = (if found2 then s8\<lparr>havedisk2 := 1\<rparr> else s8) in
                if havedisk2 s9 = 0 then Panic ''ide disk 2(swap disk) not present'' s9
                else Ok (outb 0x1f6 (ucast ((0xe0 :: uint) OR push_bit 4 0)) s9)) = Ok s'"
    by (auto simp: Let_def bindr_Ok split: if_splits)
  let ?s9 = "if found2 then s8\<lparr>havedisk2 := 1\<rparr> else s8"
  from fin have h2: "havedisk2 ?s9 \<noteq> 0" and s': "s' = outb 0x1f6 (ucast ((0xe0 :: uint) OR push_bit 4 0)) ?s9"
    by (auto simp: Let_def split: if_splits)
  from idewait_Ok [OF w] have "havedisk1 s6 = havedisk1 ?s5"
    by (auto simp: polled_def)
  with probe_havedisk [OF p2] h1 have "havedisk1 ?s9 \<noteq> 0"
    by (auto simp: outb_def)
  with h2 s' show ?thesis
    by (simp add: outb_def)
qed

lemma probe_found:
  assumes "inb_in s p = r # rs" "r \<noteq> 0"
  shows "probe 1000 p s = Ok (True, polled p rs s)"
proof -
  have "probe (Suc n) p s = Ok (True, polled p rs s)" for n
    using assms by (simp add: inb_def polled_def)
  from this [of 999] show ?thesis by simp
qed

lemma ideinit_example: "ideinit boot_example = Ok booted_example"
proof -
  have p1: "probe 1000 0x1f7 s = Ok (True, polled 0x1f7 rs s)" if "inb_in s 0x1f7 = 0x50 # rs" for s rs
    using probe_found [OF that] by simp
  have p2: "probe 1000 0x177 s = Ok (True, polled 0x177 rs s)" if "inb_in s 0x177 = 0x50 # rs" for s rs
    using probe_found [OF that] by simp
  show ?thesis
    by (simp add: ideinit_def idewait_eq status0 status1 polled_def outb_def Let_def p1 p2
        boot_example_def booted_example_def
        idle_example_def busy_def ATA_SR_BSY_def IO_BASE0_def IO_BASE1_def ATA_SDH_def
        ATA_STATUS_def FS_DEVNO_def SWAP_DEVNO_def)
qed

section \<open>The entry checks of iderw\<close>

lemma flags_ok_example: "flags_ok hdr_example"
proof -
  have "flag_bit 1" unfolding flag_bit_def by (rule bexI [of _ 0]) simp_all
  moreover have "flag_bit 2" unfolding flag_bit_def by (rule bexI [of _ 1]) simp_all
  moreover have "flag_bit 4" unfolding flag_bit_def by (rule bexI [of _ 2]) simp_all
  ultimately show ?thesis by (simp add: flags_ok_def hdr_example_def)
qed

lemma iderw_wait_not_Panic: "iderw_wait K b s \<noteq> Panic m s'"
  by (simp add: iderw_wait_def)

lemma iderw_entered_no_entry_panic:
  assumes "b \<noteq> 0" "iderw_contract K (bufs s b)" "dev (bufs s b) = 0 \<or> havedisk1 s \<noteq> 0"
    and "iderw K b s = Panic m s'"
  shows "m = ''idestart'' \<or> m = ''incorrect blockno''"
  using assms
  by (auto simp: iderw_def iderw_contract_def bindr_Panic acquire_def Let_def
      iderw_wait_not_Panic split: option.splits if_splits dest: idestart_Panic)

text \<open>
  C3. iderw halts in panic, with the state as it was at the call (so the queue is not
  touched), exactly when the caller contract is violated: with "iderw: buf not busy" when
  BUSY is not set, and with "iderw: nothing to do" when BUSY is set and VALID is set
  while DIRTY is clear. For a buffer that has BUSY set and is not VALID without DIRTY,
  neither of the two panics occurs, whatever else the call does.
\<close>

theorem iderw_contract_panic:
  assumes "flags_ok K" and "b \<noteq> 0"
  shows "(\<not> flag_set (flags (bufs s b)) (B_BUSY K) \<longrightarrow>
            iderw K b s = Panic ''iderw: buf not busy'' s) \<and>
         (flag_set (flags (bufs s b)) (B_BUSY K) \<and> flag_set (flags (bufs s b)) (B_VALID K) \<and>
          \<not> flag_set (flags (bufs s b)) (B_DIRTY K) \<longrightarrow>
            iderw K b s = Panic ''iderw: nothing to do'' s) \<and>
         (flag_set (flags (bufs s b)) (B_BUSY K) \<and>
          \<not> (flag_set (flags (bufs s b)) (B_VALID K) \<and> \<not> flag_set (flags (bufs s b)) (B_DIRTY K)) \<longrightarrow>
            (\<forall>s'. iderw K b s \<noteq> Panic ''iderw: buf not busy'' s' \<and>
                  iderw K b s \<noteq> Panic ''iderw: nothing to do'' s'))"
proof -
  let ?f = "flags (bufs s b)"
  have busy: "(?f AND B_BUSY K = 0) = (\<not> flag_set ?f (B_BUSY K))"
    using assms(1) by (simp add: flags_ok_def flag_clear_iff)
  have settled: "(?f AND (B_VALID K OR B_DIRTY K) = B_VALID K) =
      (flag_set ?f (B_VALID K) \<and> \<not> flag_set ?f (B_DIRTY K))"
    using assms(1) by (simp add: flags_ok_def settled_iff)
  have a: "\<not> flag_set ?f (B_BUSY K) \<Longrightarrow> iderw K b s = Panic ''iderw: buf not busy'' s"
    using assms(2) busy by (simp add: iderw_def)
  have b: "flag_set ?f (B_BUSY K) \<Longrightarrow> flag_set ?f (B_VALID K) \<Longrightarrow> \<not> flag_set ?f (B_DIRTY K) \<Longrightarrow>
      iderw K b s = Panic ''iderw: nothing to do'' s"
    using assms(2) busy settled by (simp add: iderw_def)
  have c: "iderw K b s \<noteq> Panic ''iderw: buf not busy'' s' \<and>
           iderw K b s \<noteq> Panic ''iderw: nothing to do'' s'"
    if "flag_set ?f (B_BUSY K)"
      and "\<not> (flag_set ?f (B_VALID K) \<and> \<not> flag_set ?f (B_DIRTY K))" for s'
  proof -
    have contract: "iderw_contract K (bufs s b)"
      using that busy settled by (simp add: iderw_contract_def)
    show ?thesis
    proof (cases "dev (bufs s b) \<noteq> 0 \<and> havedisk1 s = 0")
      case True
      then have "iderw K b s = Panic ''iderw: ide disk 1 not present'' s"
        using assms(2) contract by (simp add: iderw_def iderw_contract_def)
      then show ?thesis by simp
    next
      case False
      then have "dev (bufs s b) = 0 \<or> havedisk1 s \<noteq> 0" by simp
      from iderw_entered_no_entry_panic [OF assms(2) contract this]
      show ?thesis by fastforce
    qed
  qed
  from a b c show ?thesis by blast
qed


theorem iderw_contract_panic_witness:
  "flags_ok hdr_example \<and> (1 :: nat) \<noteq> 0 \<and>
   \<not> flag_set (flags (bufs (with_buf 1 (buf_example\<lparr>flags := 0\<rparr>) idle_example) 1)) (B_BUSY hdr_example) \<and>
   iderw hdr_example 1 (with_buf 1 (buf_example\<lparr>flags := 0\<rparr>) idle_example) =
     Panic ''iderw: buf not busy'' (with_buf 1 (buf_example\<lparr>flags := 0\<rparr>) idle_example) \<and>
   flag_set (flags (bufs (with_buf 1 (buf_example\<lparr>flags := 3\<rparr>) idle_example) 1)) (B_BUSY hdr_example) \<and>
   flag_set (flags (bufs (with_buf 1 (buf_example\<lparr>flags := 3\<rparr>) idle_example) 1)) (B_VALID hdr_example) \<and>
   \<not> flag_set (flags (bufs (with_buf 1 (buf_example\<lparr>flags := 3\<rparr>) idle_example) 1)) (B_DIRTY hdr_example) \<and>
   iderw hdr_example 1 (with_buf 1 (buf_example\<lparr>flags := 3\<rparr>) idle_example) =
     Panic ''iderw: nothing to do'' (with_buf 1 (buf_example\<lparr>flags := 3\<rparr>) idle_example) \<and>
   flag_set (flags (bufs (with_buf 1 (buf_example\<lparr>flags := 5\<rparr>) idle_example) 1)) (B_BUSY hdr_example) \<and>
   flag_set (flags (bufs (with_buf 1 (buf_example\<lparr>flags := 5\<rparr>) idle_example) 1)) (B_DIRTY hdr_example) \<and>
   iderw hdr_example 1 (with_buf 1 (buf_example\<lparr>flags := 5\<rparr>) idle_example) \<noteq>
     Panic ''iderw: buf not busy'' (with_buf 1 (buf_example\<lparr>flags := 5\<rparr>) idle_example) \<and>
   iderw hdr_example 1 (with_buf 1 (buf_example\<lparr>flags := 5\<rparr>) idle_example) \<noteq>
     Panic ''iderw: nothing to do'' (with_buf 1 (buf_example\<lparr>flags := 5\<rparr>) idle_example)"
proof -
  have one: "(1 :: nat) \<noteq> 0" by simp
  note inst = iderw_contract_panic [OF flags_ok_example one]
  have f0: "\<not> flag_set (flags (bufs (with_buf 1 (buf_example\<lparr>flags := 0\<rparr>) idle_example) 1)) (B_BUSY hdr_example)"
    by (simp add: flag_set_def with_buf_def hdr_example_def)
  have f3: "flag_set (flags (bufs (with_buf 1 (buf_example\<lparr>flags := 3\<rparr>) idle_example) 1)) (B_BUSY hdr_example)"
    "flag_set (flags (bufs (with_buf 1 (buf_example\<lparr>flags := 3\<rparr>) idle_example) 1)) (B_VALID hdr_example)"
    "\<not> flag_set (flags (bufs (with_buf 1 (buf_example\<lparr>flags := 3\<rparr>) idle_example) 1)) (B_DIRTY hdr_example)"
    by (simp_all add: flag_set_def with_buf_def hdr_example_def)
  have f5: "flag_set (flags (bufs (with_buf 1 (buf_example\<lparr>flags := 5\<rparr>) idle_example) 1)) (B_BUSY hdr_example)"
    "flag_set (flags (bufs (with_buf 1 (buf_example\<lparr>flags := 5\<rparr>) idle_example) 1)) (B_DIRTY hdr_example)"
    by (simp_all add: flag_set_def with_buf_def hdr_example_def)
  show ?thesis
    using inst [of "with_buf 1 (buf_example\<lparr>flags := 0\<rparr>) idle_example"]
      inst [of "with_buf 1 (buf_example\<lparr>flags := 3\<rparr>) idle_example"]
      inst [of "with_buf 1 (buf_example\<lparr>flags := 5\<rparr>) idle_example"]
      f0 f3 f5 flags_ok_example
    by blast
qed

section \<open>The device gate of iderw\<close>

text \<open>
  C9. A request for a device other than 0 is refused when the presence flag havedisk1,
  which ideinit sets when it detects disk 1, is unset: iderw halts in panic with the
  state as it was at the call, before the request is linked into the queue; for a request
  that satisfies the entry contract the panic is "iderw: ide disk 1 not present".
  Requests for device 0, and requests for another device when havedisk1 is set, never
  meet this panic. The flag is set in every state that ideinit returns.
\<close>

theorem iderw_disk1_gate:
  assumes "b \<noteq> 0"
  shows "(dev (bufs s b) \<noteq> 0 \<and> havedisk1 s = 0 \<longrightarrow>
            (\<exists>m. iderw K b s = Panic m s) \<and>
            (iderw_contract K (bufs s b) \<longrightarrow>
               iderw K b s = Panic ''iderw: ide disk 1 not present'' s)) \<and>
         (dev (bufs s b) = 0 \<or> havedisk1 s \<noteq> 0 \<longrightarrow>
            (\<forall>s'. iderw K b s \<noteq> Panic ''iderw: ide disk 1 not present'' s')) \<and>
         (\<forall>s0. ideinit s0 = Ok s \<longrightarrow> havedisk1 s \<noteq> 0)"
proof -
  have d: "havedisk1 s \<noteq> 0" if "ideinit s0 = Ok s" for s0
    using ideinit_havedisk [OF that] by simp
  have a: "\<exists>m. iderw K b s = Panic m s" if "dev (bufs s b) \<noteq> 0" "havedisk1 s = 0"
    using assms that by (simp add: iderw_def)
  have b: "iderw K b s = Panic ''iderw: ide disk 1 not present'' s"
    if "dev (bufs s b) \<noteq> 0" "havedisk1 s = 0" "iderw_contract K (bufs s b)"
    using assms that by (simp add: iderw_def iderw_contract_def)
  have c: "iderw K b s \<noteq> Panic ''iderw: ide disk 1 not present'' s'"
    if pass: "dev (bufs s b) = 0 \<or> havedisk1 s \<noteq> 0" for s'
  proof (cases "iderw_contract K (bufs s b)")
    case True
    from iderw_entered_no_entry_panic [OF assms True pass] show ?thesis by fastforce
  next
    case False
    then show ?thesis
      using assms by (auto simp: iderw_def iderw_contract_def)
  qed
  from a b c d show ?thesis by blast
qed

theorem iderw_disk1_gate_witness:
  "(1 :: nat) \<noteq> 0 \<and>
   dev (bufs (with_buf 1 (buf_example\<lparr>dev := 1\<rparr>) (idle_example\<lparr>havedisk1 := 0\<rparr>)) 1) \<noteq> 0 \<and>
   havedisk1 (with_buf 1 (buf_example\<lparr>dev := 1\<rparr>) (idle_example\<lparr>havedisk1 := 0\<rparr>)) = 0 \<and>
   iderw_contract hdr_example (bufs (with_buf 1 (buf_example\<lparr>dev := 1\<rparr>) (idle_example\<lparr>havedisk1 := 0\<rparr>)) 1) \<and>
   iderw hdr_example 1 (with_buf 1 (buf_example\<lparr>dev := 1\<rparr>) (idle_example\<lparr>havedisk1 := 0\<rparr>)) =
     Panic ''iderw: ide disk 1 not present''
       (with_buf 1 (buf_example\<lparr>dev := 1\<rparr>) (idle_example\<lparr>havedisk1 := 0\<rparr>)) \<and>
   havedisk1 (with_buf 1 (buf_example\<lparr>dev := 1\<rparr>) idle_example) \<noteq> 0 \<and>
   iderw hdr_example 1 (with_buf 1 (buf_example\<lparr>dev := 1\<rparr>) idle_example) \<noteq>
     Panic ''iderw: ide disk 1 not present'' (with_buf 1 (buf_example\<lparr>dev := 1\<rparr>) idle_example) \<and>
   havedisk1 boot_example = 0 \<and> ideinit boot_example = Ok booted_example \<and>
   havedisk1 booted_example \<noteq> 0"
proof -
  have one: "(1 :: nat) \<noteq> 0" by simp
  note inst = iderw_disk1_gate [OF one]
  have h: "dev (bufs (with_buf 1 (buf_example\<lparr>dev := 1\<rparr>) (idle_example\<lparr>havedisk1 := 0\<rparr>)) 1) \<noteq> 0"
    "havedisk1 (with_buf 1 (buf_example\<lparr>dev := 1\<rparr>) (idle_example\<lparr>havedisk1 := 0\<rparr>)) = 0"
    "iderw_contract hdr_example (bufs (with_buf 1 (buf_example\<lparr>dev := 1\<rparr>) (idle_example\<lparr>havedisk1 := 0\<rparr>)) 1)"
    "havedisk1 (with_buf 1 (buf_example\<lparr>dev := 1\<rparr>) idle_example) \<noteq> 0"
    by (simp_all add: with_buf_def buf_example_def idle_example_def iderw_contract_def hdr_example_def)
  have boot: "havedisk1 boot_example = 0"
    by (simp add: boot_example_def)
  show ?thesis
    using inst [of "with_buf 1 (buf_example\<lparr>dev := 1\<rparr>) (idle_example\<lparr>havedisk1 := 0\<rparr>)" hdr_example]
      inst [of "with_buf 1 (buf_example\<lparr>dev := 1\<rparr>) idle_example" hdr_example]
      inst [of booted_example hdr_example] h boot ideinit_example
    by blast
qed

section \<open>idestart\<close>

lemma added_append: "trace s' = trace s @ es \<Longrightarrow> added s s' = es"
  by (simp add: added_def)

lemma readies_next_ready: "readies rs \<noteq> [] \<Longrightarrow> \<exists>r rest. next_ready rs = Some (r, rest)"
  using next_ready_Some by blast

text \<open>
  C4. The range check of idestart is exact at the size of the file system. A block
  number equal to FSSIZE or above halts in the panic "incorrect blockno" with the state
  as it was, so no register has been written. Every block number below FSSIZE passes
  the check; for the last one, FSSIZE - 1, with at most 7 sectors per block and a device
  that becomes ready, idestart returns having programmed the controller.
\<close>

theorem idestart_blockno_boundary:
  assumes "b \<noteq> 0"
  shows "(FSSIZE K \<le> blockno (bufs s b) \<longrightarrow> idestart K b s = Panic ''incorrect blockno'' s) \<and>
         (blockno (bufs s b) < FSSIZE K \<longrightarrow>
            (\<forall>s'. idestart K b s \<noteq> Panic ''incorrect blockno'' s')) \<and>
         (FSSIZE K \<noteq> 0 \<and> blockno (bufs s b) = FSSIZE K - 1 \<and> BSIZE K div SECTSIZE \<le> 7 \<and>
          readies (inb_in s 0x1f7) \<noteq> [] \<longrightarrow>
            (\<exists>s'. idestart K b s = Ok s' \<and> added s s' = start_io K (bufs s b)))"
proof -
  have a: "idestart K b s = Panic ''incorrect blockno'' s" if "FSSIZE K \<le> blockno (bufs s b)"
    using assms that by (simp add: idestart_eq)
  have b: "idestart K b s \<noteq> Panic ''incorrect blockno'' s'" if "blockno (bufs s b) < FSSIZE K" for s'
    using assms that by (auto simp: idestart_eq split: option.splits)
  have c: "\<exists>s'. idestart K b s = Ok s' \<and> added s s' = start_io K (bufs s b)"
    if "FSSIZE K \<noteq> 0" "blockno (bufs s b) = FSSIZE K - 1" "BSIZE K div SECTSIZE \<le> 7"
      "readies (inb_in s 0x1f7) \<noteq> []"
  proof -
    have "FSSIZE K - 1 < FSSIZE K"
      using that(1) by (simp add: word_less_nat_alt unat_minus_one unat_gt_0)
    then have lt: "\<not> FSSIZE K \<le> blockno (bufs s b)"
      using that(2) by simp
    from readies_next_ready [OF that(4)] obtain r rest
      where "next_ready (inb_in s 0x1f7) = Some (r, rest)" by blast
    then show ?thesis
      using assms lt that(3) by (simp add: idestart_eq added_def)
  qed
  from a b c show ?thesis by blast
qed

theorem idestart_blockno_boundary_witness:
  "(1 :: nat) \<noteq> 0 \<and>
   FSSIZE hdr_example \<le> blockno (bufs (with_buf 1 (buf_example\<lparr>blockno := 1000\<rparr>) idle_example) 1) \<and>
   idestart hdr_example 1 (with_buf 1 (buf_example\<lparr>blockno := 1000\<rparr>) idle_example) =
     Panic ''incorrect blockno'' (with_buf 1 (buf_example\<lparr>blockno := 1000\<rparr>) idle_example) \<and>
   FSSIZE hdr_example \<noteq> 0 \<and>
   blockno (bufs (with_buf 1 (buf_example\<lparr>blockno := 999\<rparr>) idle_example) 1) = FSSIZE hdr_example - 1 \<and>
   BSIZE hdr_example div SECTSIZE \<le> 7 \<and>
   readies (inb_in (with_buf 1 (buf_example\<lparr>blockno := 999\<rparr>) idle_example) 0x1f7) \<noteq> [] \<and>
   blockno (bufs (with_buf 1 (buf_example\<lparr>blockno := 999\<rparr>) idle_example) 1) < FSSIZE hdr_example \<and>
   idestart hdr_example 1 (with_buf 1 (buf_example\<lparr>blockno := 999\<rparr>) idle_example) \<noteq>
     Panic ''incorrect blockno'' (with_buf 1 (buf_example\<lparr>blockno := 999\<rparr>) idle_example) \<and>
   (\<exists>s'. idestart hdr_example 1 (with_buf 1 (buf_example\<lparr>blockno := 999\<rparr>) idle_example) = Ok s' \<and>
         added (with_buf 1 (buf_example\<lparr>blockno := 999\<rparr>) idle_example) s' =
           start_io hdr_example (bufs (with_buf 1 (buf_example\<lparr>blockno := 999\<rparr>) idle_example) 1))"
proof -
  have one: "(1 :: nat) \<noteq> 0" by simp
  note inst = idestart_blockno_boundary [OF one]
  have h: "FSSIZE hdr_example \<le> blockno (bufs (with_buf 1 (buf_example\<lparr>blockno := 1000\<rparr>) idle_example) 1)"
    "FSSIZE hdr_example \<noteq> 0"
    "blockno (bufs (with_buf 1 (buf_example\<lparr>blockno := 999\<rparr>) idle_example) 1) = FSSIZE hdr_example - 1"
    "BSIZE hdr_example div SECTSIZE \<le> 7"
    "readies (inb_in (with_buf 1 (buf_example\<lparr>blockno := 999\<rparr>) idle_example) 0x1f7) \<noteq> []"
    "blockno (bufs (with_buf 1 (buf_example\<lparr>blockno := 999\<rparr>) idle_example) 1) < FSSIZE hdr_example"
    by (simp_all add: with_buf_def buf_example_def idle_example_def hdr_example_def SECTSIZE_def
        readies_def busy_def ATA_SR_BSY_def)
  show ?thesis
    using inst [of hdr_example "with_buf 1 (buf_example\<lparr>blockno := 1000\<rparr>) idle_example"]
      inst [of hdr_example "with_buf 1 (buf_example\<lparr>blockno := 999\<rparr>) idle_example"] h
    by blast
qed

text \<open>
  C5. When idestart returns, the command it wrote to the command register 0x1f7 depends
  on the DIRTY test alone. If the flag word has DIRTY, the traffic is the register
  writes, the write command 0x30, and directly after it one push of BSIZE / 4 words of
  the buffer's data to the data port 0x1f0 (the whole block when BSIZE is a multiple of
  4). If not, the traffic is the register writes and the read command 0x20, with nothing
  after it: no data is moved, and the buffer and the position of the data port are as
  before.
\<close>

theorem idestart_command_by_dirty:
  assumes "idestart K b s = Ok s'"
  shows "(flags (bufs s b) AND B_DIRTY K \<noteq> 0 \<longrightarrow>
            added s s' = start_regs K (bufs s b) @
              [Outb 0x1f7 ATA_CMD_WRITE,
               Outsl 0x1f0 (take (4 * (BSIZE K div 4)) (data (bufs s b)))]) \<and>
         (4 dvd BSIZE K \<and> length (data (bufs s b)) = BSIZE K \<longrightarrow>
            take (4 * (BSIZE K div 4)) (data (bufs s b)) = data (bufs s b)) \<and>
         (flags (bufs s b) AND B_DIRTY K = 0 \<longrightarrow>
            added s s' = start_regs K (bufs s b) @ [Outb 0x1f7 ATA_CMD_READ]) \<and>
         filter (\<lambda>e. effect_ports e = [0x1f7]) (added s s') =
           [Outb 0x1f7 (if flags (bufs s b) AND B_DIRTY K \<noteq> 0 then 0x30 else 0x20)] \<and>
         ATA_CMD_WRITE = 0x30 \<and> ATA_CMD_READ = 0x20 \<and>
         bufs s' = bufs s \<and> insl_pos s' = insl_pos s"
proof -
  from idestart_Ok [OF assms] obtain rs where
    s': "s' = s\<lparr>inb_in := (inb_in s)(0x1f7 := rs), trace := trace s @ start_io K (bufs s b)\<rparr>"
    by blast
  then have add: "added s s' = start_io K (bufs s b)"
    by (simp add: added_def)
  have full: "take (4 * (BSIZE K div 4)) (data (bufs s b)) = data (bufs s b)"
    if "4 dvd BSIZE K" "length (data (bufs s b)) = BSIZE K"
    using that by simp
  have cmd: "filter (\<lambda>e. effect_ports e = [0x1f7]) (start_io K (bufs s b)) =
      [Outb 0x1f7 (if flags (bufs s b) AND B_DIRTY K \<noteq> 0 then 0x30 else 0x20)]"
    by (simp add: start_io_def start_regs_def)
  have w: "start_io K (bufs s b) = start_regs K (bufs s b) @
      [Outb 0x1f7 ATA_CMD_WRITE, Outsl 0x1f0 (take (4 * (BSIZE K div 4)) (data (bufs s b)))]"
    if "flags (bufs s b) AND B_DIRTY K \<noteq> 0"
    using that by (simp add: start_io_def ATA_CMD_WRITE_def)
  have r: "start_io K (bufs s b) = start_regs K (bufs s b) @ [Outb 0x1f7 ATA_CMD_READ]"
    if "flags (bufs s b) AND B_DIRTY K = 0"
    using that by (simp add: start_io_def ATA_CMD_READ_def)
  have fr: "bufs s' = bufs s" "insl_pos s' = insl_pos s"
    using s' by simp_all
  have ops: "ATA_CMD_WRITE = 0x30" "ATA_CMD_READ = 0x20"
    by (simp_all add: ATA_CMD_WRITE_def ATA_CMD_READ_def)
  show ?thesis
    unfolding add using w r full cmd fr ops by blast
qed

lemma idestart_example:
  assumes "blockno x < 1000"
  shows "idestart hdr_example 1 (with_buf 1 x idle_example) =
      Ok ((with_buf 1 x idle_example)
             \<lparr>inb_in := (inb_in (with_buf 1 x idle_example))(0x1f7 := [0x50, 0x50, 0x50]),
              trace := start_io hdr_example x\<rparr>)"
  using assms
  by (simp add: idestart_eq with_buf_def idle_example_def hdr_example_def SECTSIZE_def
      busy_def ATA_SR_BSY_def)

theorem idestart_command_by_dirty_witness:
  "(\<exists>s'. idestart hdr_example 1
            (with_buf 1 (buf_example\<lparr>flags := 5, data := replicate 512 7\<rparr>) idle_example) = Ok s' \<and>
         added (with_buf 1 (buf_example\<lparr>flags := 5, data := replicate 512 7\<rparr>) idle_example) s' =
           start_regs hdr_example (buf_example\<lparr>flags := 5, data := replicate 512 7\<rparr>) @
             [Outb 0x1f7 ATA_CMD_WRITE, Outsl 0x1f0 (replicate 512 7)]) \<and>
   (\<exists>s'. idestart hdr_example 1 (with_buf 1 buf_example idle_example) = Ok s' \<and>
         added (with_buf 1 buf_example idle_example) s' =
           start_regs hdr_example buf_example @ [Outb 0x1f7 ATA_CMD_READ])"
proof -
  let ?w = "with_buf 1 (buf_example\<lparr>flags := 5, data := replicate 512 7\<rparr>) idle_example"
  let ?r = "with_buf 1 buf_example idle_example"
  obtain sw where sw: "idestart hdr_example 1 ?w = Ok sw"
    using idestart_example [of "buf_example\<lparr>flags := 5, data := replicate 512 7\<rparr>"]
    by (simp add: buf_example_def)
  obtain sr where sr: "idestart hdr_example 1 ?r = Ok sr"
    using idestart_example [of buf_example]
    by (simp add: buf_example_def)
  have "added ?w sw = start_regs hdr_example (buf_example\<lparr>flags := 5, data := replicate 512 7\<rparr>) @
             [Outb 0x1f7 ATA_CMD_WRITE, Outsl 0x1f0 (replicate 512 7)]"
    using idestart_command_by_dirty [OF sw]
    by (simp add: with_buf_def hdr_example_def buf_example_def)
  moreover have "added ?r sr = start_regs hdr_example buf_example @ [Outb 0x1f7 ATA_CMD_READ]"
    using idestart_command_by_dirty [OF sr]
    by (simp add: with_buf_def hdr_example_def buf_example_def)
  ultimately show ?thesis
    using sw sr by blast
qed

section \<open>ideintr\<close>

text \<open>
  C7. An interrupt that finds the queue empty is a no-op: ideintr takes the lock,
  releases it and returns, and the state after it is the state before it (the queue, every
  buffer, the ports and the trace). It is a normal return, not a panic.
\<close>

theorem ideintr_spurious:
  assumes "idequeue s = 0" and "\<not> idelock s"
  shows "ideintr K s = Ok s"
  using assms by (simp add: ideintr_def acquire_def release_def)

theorem ideintr_spurious_witness:
  "idequeue idle_example = 0 \<and> \<not> idelock idle_example \<and>
   ideintr hdr_example idle_example = Ok idle_example"
proof -
  have h: "idequeue idle_example = 0" "\<not> idelock idle_example"
    by (simp_all add: idle_example_def)
  from ideintr_spurious [OF h] h show ?thesis by simp
qed

lemma ideintr_eq:
  "ideintr K s =
     (if idelock s then Hang
      else if idequeue s = 0 then Ok s
      else
        bindr (read_back K (idequeue s) (s\<lparr>idelock := True, idequeue := qnext (bufs s (idequeue s))\<rparr>))
          (\<lambda>s4. bindr (if idequeue s4 \<noteq> 0
                       then idestart K (idequeue s4) (completed K (idequeue s) s4)
                       else Ok (completed K (idequeue s) s4))
                  (\<lambda>s8. Ok (release s8))))"
proof -
  have rb: "(if flags (bufs s2 b) AND B_DIRTY K = 0
            then bindr (idewait IO_BASE0 1 s2) (\<lambda>(r, s3).
                   if r \<ge> 0 then Ok (insl_buf 0x1f0 b (BSIZE K div 4) s3) else Ok s3)
            else Ok s2) = read_back K b s2" for b s2
    by (simp add: read_back_def idewait_eq status0 split: option.splits)
  show ?thesis
    unfolding ideintr_def rb
    by (simp add: acquire_def release_def Let_def completed_def wakeup_def cong: if_cong)
qed

lemma read_back_Ok:
  assumes "read_back K b s = Ok s4"
  shows "idequeue s4 = idequeue s \<and> idelock s4 = idelock s \<and> mem s4 = mem s \<and>
     havedisk1 s4 = havedisk1 s \<and> havedisk2 s4 = havedisk2 s \<and> insl_in s4 = insl_in s \<and>
     (\<forall>p. p \<noteq> 0x1f7 \<longrightarrow> inb_in s4 p = inb_in s p) \<and>
     (\<forall>p. p \<noteq> 0x1f0 \<longrightarrow> insl_pos s4 p = insl_pos s p) \<and>
     (\<forall>x. flags (bufs s4 x) = flags (bufs s x) \<and> qnext (bufs s4 x) = qnext (bufs s x) \<and>
          dev (bufs s4 x) = dev (bufs s x) \<and> blockno (bufs s4 x) = blockno (bufs s x)) \<and>
     (\<forall>x. x \<noteq> b \<longrightarrow> bufs s4 x = bufs s x) \<and>
     (trace s4 = trace s \<and> bufs s4 = bufs s \<and> insl_pos s4 = insl_pos s \<or>
      trace s4 = trace s @ [Insl 0x1f0 (BSIZE K div 4)] \<and> flags (bufs s b) AND B_DIRTY K = 0 \<and>
        (\<exists>r rest. next_ready (inb_in s 0x1f7) = Some (r, rest) \<and> \<not> failed r) \<and>
        data (bufs s4 b) =
          map (insl_in s 0x1f0) [insl_pos s 0x1f0 ..< insl_pos s 0x1f0 + 4 * (BSIZE K div 4)] @
          drop (4 * (BSIZE K div 4)) (data (bufs s b)))"
  using assms
  by (auto simp: read_back_def polled_def insl_buf_def insl_def split: if_splits option.splits)

lemma read_back_failed:
  assumes "read_back K b s = Ok s4" "next_ready (inb_in s 0x1f7) = Some (r, rest)" "failed r"
  shows "trace s4 = trace s \<and> bufs s4 = bufs s \<and> insl_pos s4 = insl_pos s"
  using assms
  by (auto simp: read_back_def polled_def split: if_splits)

lemma read_back_dirty:
  assumes "read_back K b s = Ok s4" "flags (bufs s b) AND B_DIRTY K \<noteq> 0"
  shows "s4 = s"
  using assms by (auto simp: read_back_def)

lemma read_back_not_Panic: "read_back K b s \<noteq> Panic m s'"
  by (auto simp: read_back_def split: option.splits)

lemma read_back_ready:
  assumes "readies (inb_in s 0x1f7) \<noteq> []"
  shows "\<exists>s4. read_back K b s = Ok s4 \<and>
     (readies (inb_in s4 0x1f7) = readies (inb_in s 0x1f7) \<or>
      readies (inb_in s4 0x1f7) = tl (readies (inb_in s 0x1f7)))"
proof -
  from next_ready_Some [OF assms] obtain rest where
    "next_ready (inb_in s 0x1f7) = Some (hd (readies (inb_in s 0x1f7)), rest)"
    "readies rest = tl (readies (inb_in s 0x1f7))" by blast
  then show ?thesis
    by (auto simp: read_back_def polled_def insl_buf_def insl_def)
qed


lemma completed_simps:
  "trace (completed K b s) = trace s @ [Wakeup b]"
  "bufs (completed K b s) =
     (bufs s)(b := (bufs s b)\<lparr>flags := (flags (bufs s b) OR B_VALID K) AND NOT (B_DIRTY K)\<rparr>)"
  "idequeue (completed K b s) = idequeue s"
  "idelock (completed K b s) = idelock s"
  "inb_in (completed K b s) = inb_in s"
  "insl_pos (completed K b s) = insl_pos s"
  "insl_in (completed K b s) = insl_in s"
  "mem (completed K b s) = mem s"
  "havedisk1 (completed K b s) = havedisk1 s"
  by (simp_all add: completed_def wakeup_def)

lemma ideintr_outcome:
  assumes "b = idequeue s" "b \<noteq> 0"
    and "ideintr K s = Ok s' \<or> ideintr K s = Panic m s'"
  shows "\<exists>s4 st. \<not> idelock s \<and>
     read_back K b (s\<lparr>idelock := True, idequeue := qnext (bufs s b)\<rparr>) = Ok s4 \<and>
     bufs s' = bufs (completed K b s4) \<and>
     trace s' = trace s4 @ [Wakeup b] @ st \<and>
     insl_pos s' = insl_pos s4 \<and> insl_in s' = insl_in s \<and> mem s' = mem s \<and>
     havedisk1 s' = havedisk1 s \<and>
     idequeue s' = qnext (bufs s b) \<and>
     (\<forall>p. p \<noteq> 0x1f7 \<longrightarrow> inb_in s' p = inb_in s p) \<and>
     (ideintr K s = Ok s' \<longrightarrow> \<not> idelock s' \<and>
        st = (if qnext (bufs s b) = 0 then [] else start_io K (bufs s' (qnext (bufs s b))))) \<and>
     (ideintr K s = Panic m s' \<longrightarrow> st = [] \<and> qnext (bufs s b) \<noteq> 0)"
proof -
  let ?s1 = "s\<lparr>idelock := True, idequeue := qnext (bufs s b)\<rparr>"
  from assms have free: "\<not> idelock s"
    by (auto simp: ideintr_eq split: if_splits)
  have run:
    "bindr (read_back K b ?s1)
          (\<lambda>s4. bindr (if idequeue s4 \<noteq> 0
                       then idestart K (idequeue s4) (completed K b s4)
                       else Ok (completed K b s4))
                  (\<lambda>s8. Ok (release s8))) = ideintr K s"
    unfolding assms(1) using assms(2) [unfolded assms(1)] free by (simp add: ideintr_eq)
  from assms(3) run obtain s4 where rb: "read_back K b ?s1 = Ok s4"
    and rest: "bindr (if idequeue s4 \<noteq> 0
                       then idestart K (idequeue s4) (completed K b s4)
                       else Ok (completed K b s4))
                  (\<lambda>s8. Ok (release s8)) = ideintr K s"
    by (cases "read_back K b ?s1") (auto simp: read_back_not_Panic)
  from read_back_Ok [OF rb] have fr:
    "idequeue s4 = qnext (bufs s b)" "idelock s4" "mem s4 = mem s" "havedisk1 s4 = havedisk1 s"
    "insl_in s4 = insl_in s" "\<And>p. p \<noteq> 0x1f7 \<Longrightarrow> inb_in s4 p = inb_in s p"
    by simp_all
  show ?thesis
  proof (cases "qnext (bufs s b) = 0")
    case True
    with rest fr have "ideintr K s = Ok (release (completed K b s4))"
      by simp
    with assms(3) have "s' = release (completed K b s4)" "ideintr K s = Ok s'"
      by auto
    then show ?thesis
      using free rb fr True by (auto simp: release_def completed_simps)
  next
    case False
    with rest fr have rest2:
      "bindr (idestart K (qnext (bufs s b)) (completed K b s4)) (\<lambda>s8. Ok (release s8)) = ideintr K s"
      by simp
    show ?thesis
    proof (cases "idestart K (qnext (bufs s b)) (completed K b s4)")
      case (Ok s8)
      with rest2 assms(3) have s': "s' = release s8" "ideintr K s = Ok s'"
        by auto
      from idestart_Ok [OF Ok] obtain rs where
        "s8 = (completed K b s4)\<lparr>inb_in := (inb_in (completed K b s4))(0x1f7 := rs),
           trace := trace (completed K b s4) @
             start_io K (bufs (completed K b s4) (qnext (bufs s b)))\<rparr>"
        by blast
      then show ?thesis
        using free rb fr False s' by (auto simp: release_def completed_simps)
    next
      case (Panic m' sp)
      with rest2 assms(3) have s': "ideintr K s = Panic m s'" "sp = s'" "m' = m"
        by auto
      from idestart_Panic [OF Panic] s' have "s' = completed K b s4"
        by simp
      then show ?thesis
        using free rb fr False s' by (auto simp: completed_simps)
    next
      case Hang
      with rest2 assms(3) show ?thesis by auto
    next
      case Fault
      with rest2 assms(3) show ?thesis by auto
    qed
  qed
qed


lemma start_io_no_insl: "Insl p cnt \<notin> set (start_io K x)"
  by (simp add: start_io_def start_regs_def)

lemma idestart_total:
  assumes "readies (inb_in s 0x1f7) \<noteq> []"
  shows "(\<exists>s'. idestart K b s = Ok s') \<or> (\<exists>m. idestart K b s = Panic m s)"
proof -
  from readies_next_ready [OF assms] obtain r rest
    where "next_ready (inb_in s 0x1f7) = Some (r, rest)" by blast
  then show ?thesis
    by (simp add: idestart_eq)
qed

lemma ideintr_returns:
  assumes "idequeue s \<noteq> 0" "\<not> idelock s" "2 \<le> length (readies (inb_in s 0x1f7))"
  shows "\<exists>s'. ideintr K s = Ok s' \<or> (\<exists>m. ideintr K s = Panic m s')"
proof -
  let ?b = "idequeue s"
  let ?s1 = "s\<lparr>idelock := True, idequeue := qnext (bufs s ?b)\<rparr>"
  have ne: "readies (inb_in ?s1 0x1f7) \<noteq> []"
    using assms(3) by auto
  from read_back_ready [OF ne, of K ?b] obtain s4 where rb: "read_back K ?b ?s1 = Ok s4"
    and rd: "readies (inb_in s4 0x1f7) = readies (inb_in s 0x1f7) \<or>
             readies (inb_in s4 0x1f7) = tl (readies (inb_in s 0x1f7))"
    by auto
  from rd assms(3) have "readies (inb_in (completed K ?b s4) 0x1f7) \<noteq> []"
    by (cases "readies (inb_in s 0x1f7)") (auto simp: completed_simps)
  from idestart_total [OF this, of K "idequeue s4"] rb assms(1,2) show ?thesis
    by (auto simp: ideintr_eq)
qed

text \<open>
  C6. When ideintr runs with a request \<open>b\<close> at the head of the queue and comes to an
  end (it returns, or idestart on the next request halts in panic), \<open>b\<close> has VALID set
  and DIRTY clear and a wakeup on \<open>b\<close> has been issued. This holds whatever the drive
  reported: when \<open>b\<close> was a read and the error-checked idewait returned -1, the only
  difference is that no data is pulled from the data port (the data of \<open>b\<close> and the
  position of the port are as before, and the trace has no transfer). ideintr does come
  to an end when the lock is free and the status script has two ready values.
\<close>

theorem ideintr_completes_head:
  assumes "flags_ok K" and "idequeue s = b" and "b \<noteq> 0"
  shows "(\<forall>s' m. ideintr K s = Ok s' \<or> ideintr K s = Panic m s' \<longrightarrow>
            flag_set (flags (bufs s' b)) (B_VALID K) \<and>
            \<not> flag_set (flags (bufs s' b)) (B_DIRTY K) \<and>
            Wakeup b \<in> set (added s s') \<and>
            (flags (bufs s b) AND B_DIRTY K = 0 \<and> (\<exists>s3. idewait IO_BASE0 1 s = Ok (- 1, s3)) \<longrightarrow>
               data (bufs s' b) = data (bufs s b) \<and> insl_pos s' = insl_pos s \<and>
               (\<forall>p cnt. Insl p cnt \<notin> set (added s s')))) \<and>
         (\<not> idelock s \<and> 2 \<le> length (readies (inb_in s 0x1f7)) \<longrightarrow>
            (\<exists>s'. ideintr K s = Ok s' \<or> (\<exists>m. ideintr K s = Panic m s')))"
proof -
  have part1: "flag_set (flags (bufs s' b)) (B_VALID K) \<and>
            \<not> flag_set (flags (bufs s' b)) (B_DIRTY K) \<and>
            Wakeup b \<in> set (added s s') \<and>
            (flags (bufs s b) AND B_DIRTY K = 0 \<and> (\<exists>s3. idewait IO_BASE0 1 s = Ok (- 1, s3)) \<longrightarrow>
               data (bufs s' b) = data (bufs s b) \<and> insl_pos s' = insl_pos s \<and>
               (\<forall>p cnt. Insl p cnt \<notin> set (added s s')))"
    if out: "ideintr K s = Ok s' \<or> ideintr K s = Panic m s'" for s' m
  proof -
    let ?s1 = "s\<lparr>idelock := True, idequeue := qnext (bufs s b)\<rparr>"
    from ideintr_outcome [OF assms(2) [symmetric] assms(3) out] obtain s4 st where
      rb: "read_back K b ?s1 = Ok s4"
      and bufs: "bufs s' = bufs (completed K b s4)"
      and tr: "trace s' = trace s4 @ [Wakeup b] @ st"
      and pos: "insl_pos s' = insl_pos s4"
      and ok: "ideintr K s = Ok s' \<longrightarrow>
        st = (if qnext (bufs s b) = 0 then [] else start_io K (bufs s' (qnext (bufs s b))))"
      and pn: "ideintr K s = Panic m s' \<longrightarrow> st = [] \<and> qnext (bufs s b) \<noteq> 0"
      by blast
    from out ok pn have st: "st = [] \<or> st = start_io K (bufs s' (qnext (bufs s b)))"
      by (auto split: if_splits)
    let ?f = "flags (bufs s4 b)"
    have fl: "flags (bufs s' b) = (?f OR B_VALID K) AND NOT (B_DIRTY K)"
      using bufs by (simp add: completed_simps)
    have settled: "flags (bufs s' b) AND (B_VALID K OR B_DIRTY K) = B_VALID K"
      unfolding fl using assms(1) by (simp add: flags_ok_def done_flags)
    then have flags: "flag_set (flags (bufs s' b)) (B_VALID K)"
      "\<not> flag_set (flags (bufs s' b)) (B_DIRTY K)"
      using assms(1) settled_iff [of "B_VALID K" "B_DIRTY K" "flags (bufs s' b)"]
      by (simp_all add: flags_ok_def)
    from read_back_Ok [OF rb] have tr4:
      "trace s4 = trace s \<or> trace s4 = trace s @ [Insl 0x1f0 (BSIZE K div 4)]"
      by auto
    with tr have wake: "Wakeup b \<in> set (added s s')"
      by (auto simp: added_def)
    have no_insl: "Insl p cnt \<notin> set st" for p cnt
      using st start_io_no_insl [of p cnt K] by auto
    have err: "data (bufs s' b) = data (bufs s b) \<and> insl_pos s' = insl_pos s \<and>
               (\<forall>p cnt. Insl p cnt \<notin> set (added s s'))"
      if rd: "flags (bufs s b) AND B_DIRTY K = 0" and w: "idewait IO_BASE0 1 s = Ok (- 1, s3)" for s3
    proof -
      from w obtain r rest where nr: "next_ready (inb_in ?s1 0x1f7) = Some (r, rest)" and "failed r"
        by (auto simp: idewait_eq status0 split: option.splits if_splits)
      from read_back_failed [OF rb nr \<open>failed r\<close>]
      have same: "trace s4 = trace s" "bufs s4 = bufs s" "insl_pos s4 = insl_pos s"
        by simp_all
      show ?thesis
        using same tr pos bufs no_insl by (auto simp: added_def completed_simps)
    qed
    from flags wake err show ?thesis by blast
  qed
  have part2: "\<exists>s'. ideintr K s = Ok s' \<or> (\<exists>m. ideintr K s = Panic m s')"
    if "\<not> idelock s" "2 \<le> length (readies (inb_in s 0x1f7))"
    using ideintr_returns [of s K] that assms(2,3) by simp
  from part1 part2 show ?thesis by blast
qed


theorem ideintr_completes_head_witness:
  "flags_ok hdr_example \<and> idequeue failing_read_example = 1 \<and> (1 :: nat) \<noteq> 0 \<and>
   \<not> idelock failing_read_example \<and>
   2 \<le> length (readies (inb_in failing_read_example 0x1f7)) \<and>
   flags (bufs failing_read_example 1) AND B_DIRTY hdr_example = 0 \<and>
   idewait IO_BASE0 1 failing_read_example = Ok (- 1, polled 0x1f7 [0x50] failing_read_example) \<and>
   (\<exists>s'. ideintr hdr_example failing_read_example = Ok s' \<and>
         flag_set (flags (bufs s' 1)) (B_VALID hdr_example) \<and>
         \<not> flag_set (flags (bufs s' 1)) (B_DIRTY hdr_example) \<and>
         Wakeup 1 \<in> set (added failing_read_example s') \<and>
         data (bufs s' 1) = data (bufs failing_read_example 1) \<and>
         insl_pos s' = insl_pos failing_read_example)"
proof -
  have h: "idequeue failing_read_example = 1" "(1 :: nat) \<noteq> 0"
    "\<not> idelock failing_read_example"
    "2 \<le> length (readies (inb_in failing_read_example 0x1f7))"
    "flags (bufs failing_read_example 1) AND B_DIRTY hdr_example = 0"
    by (simp_all add: failing_read_example_def idle_example_def buf_example_def hdr_example_def
        readies_def busy_def ATA_SR_BSY_def)
  have w: "idewait IO_BASE0 1 failing_read_example = Ok (- 1, polled 0x1f7 [0x50] failing_read_example)"
    by (simp add: idewait_eq status0 failing_read_example_def idle_example_def busy_def failed_def
        ATA_SR_BSY_def ATA_SR_DF_def ATA_SR_ERR_def)
  note inst = ideintr_completes_head [OF flags_ok_example h(1) h(2)]
  from inst h(3,4) obtain s' where
    out: "ideintr hdr_example failing_read_example = Ok s' \<or>
          (\<exists>m. ideintr hdr_example failing_read_example = Panic m s')"
    by blast
  have "qnext (bufs failing_read_example 1) = 0"
    by (simp add: failing_read_example_def idle_example_def buf_example_def)
  with ideintr_outcome [OF h(1) [symmetric] h(2)] out
  have ok: "ideintr hdr_example failing_read_example = Ok s'"
    by blast
  from inst ok h(5) w show ?thesis
    using h flags_ok_example by blast
qed

section \<open>read_swap and write_swap\<close>

lemma swap_setup_eq: "swap_setup secno cmd s = s\<lparr>trace := trace s @ swap_regs secno cmd\<rparr>"
  by (simp add: swap_setup_def swap_regs_def outb_def Let_def IO_BASE1_def IO_CTRL1_def
      ATA_CTRL_def ATA_SECCNT_def ATA_SECTOR_def ATA_CYL_LO_def ATA_CYL_HI_def ATA_SDH_def
      ATA_COMMAND_def)

lemma sector_wait:
  assumes "readies (inb_in s 0x177) = r # rd"
  shows "\<exists>rest. idewait IO_BASE1 ce s = Ok (if ce \<noteq> 0 \<and> failed r then - 1 else 0, polled 0x177 rest s) \<and>
     readies rest = rd"
proof -
  from assms have "readies (inb_in s 0x177) \<noteq> []" by simp
  from next_ready_Some [OF this] assms show ?thesis
    by (auto simp: idewait_eq status1)
qed

lemma sectors_ok_0:
  "sectors_ok (Suc n) 0 rd \<Longrightarrow> \<exists>r rest. rd = r # rest \<and> failed r"
  by (cases rd) (auto simp: sectors_ok_def)

lemma sectors_ok_Suc:
  "sectors_ok (Suc n) (Suc k) rd \<Longrightarrow> \<exists>r rest. rd = r # rest \<and> \<not> failed r \<and> sectors_ok n k rest"
  by (cases rd) (auto simp: sectors_ok_def split: if_splits)

lemma read_swap_loop_run:
  assumes "sectors_ok n k (readies (inb_in s 0x177))"
  shows "\<exists>s'. read_swap_loop n IO_BASE1 dst s = Ok (if k = n then None else Some (- 1), s') \<and>
     trace s' = trace s @ replicate k (Insl 0x170 128) \<and>
     (\<forall>a. mem s' a = (if dst \<le> a \<and> a < dst + 512 * k
                   then insl_in s 0x170 (insl_pos s 0x170 + (a - dst)) else mem s a)) \<and>
     insl_pos s' 0x170 = insl_pos s 0x170 + 512 * k \<and> insl_in s' = insl_in s \<and>
     idelock s' = (if k = n then idelock s else False)"
  using assms
proof (induction n arbitrary: k dst s)
  case 0
  then show ?case by (auto simp: sectors_ok_def)
next
  case (Suc n)
  show ?case
  proof (cases k)
    case 0
    with Suc.prems sectors_ok_0 [of n "readies (inb_in s 0x177)"]
    obtain r rd where rd: "readies (inb_in s 0x177) = r # rd" and f: "failed r"
      by auto
    from sector_wait [OF rd, of 1] f obtain rest where
      "idewait IO_BASE1 1 s = Ok (- 1, polled 0x177 rest s)" by auto
    then show ?thesis
      using 0 by (auto simp: release_def polled_def)
  next
    case (Suc k')
    with Suc.prems sectors_ok_Suc [of n k' "readies (inb_in s 0x177)"]
    obtain r rd where rd: "readies (inb_in s 0x177) = r # rd" and f: "\<not> failed r"
      and rest: "sectors_ok n k' rd"
      by auto
    from sector_wait [OF rd, of 1] f obtain rest where
      w: "idewait IO_BASE1 1 s = Ok (0, polled 0x177 rest s)" and rr: "readies rest = rd" by auto
    let ?s2 = "insl_mem IO_BASE1 dst (SECTSIZE div 4) (polled 0x177 rest s)"
    have s2: "inb_in ?s2 0x177 = rest" "trace ?s2 = trace s @ [Insl 0x170 128]"
      "insl_pos ?s2 0x170 = insl_pos s 0x170 + 512" "insl_in ?s2 = insl_in s"
      "idelock ?s2 = idelock s"
      "\<And>a. mem ?s2 a = (if dst \<le> a \<and> a < dst + 512
                   then insl_in s 0x170 (insl_pos s 0x170 + (a - dst)) else mem s a)"
      by (auto simp: insl_mem_def insl_def polled_def IO_BASE1_def SECTSIZE_def)
    from rest rr s2(1) have "sectors_ok n k' (readies (inb_in ?s2 0x177))" by simp
    from Suc.IH [OF this, of "dst + SECTSIZE"] obtain s' where
      run: "read_swap_loop n IO_BASE1 (dst + SECTSIZE) ?s2 = Ok (if k' = n then None else Some (- 1), s')"
      and tr: "trace s' = trace ?s2 @ replicate k' (Insl 0x170 128)"
      and m: "\<And>a. mem s' a = (if dst + SECTSIZE \<le> a \<and> a < dst + SECTSIZE + 512 * k'
                   then insl_in ?s2 0x170 (insl_pos ?s2 0x170 + (a - (dst + SECTSIZE))) else mem ?s2 a)"
      and fr: "insl_pos s' 0x170 = insl_pos ?s2 0x170 + 512 * k'" "insl_in s' = insl_in ?s2"
        "idelock s' = (if k' = n then idelock ?s2 else False)"
      by blast
    have "read_swap_loop (Suc n) IO_BASE1 dst s = Ok (if k = Suc n then None else Some (- 1), s')"
      using w run Suc by simp
    moreover have "trace s' = trace s @ replicate k (Insl 0x170 128)"
      using tr s2(2) Suc by simp
    moreover have "mem s' a = (if dst \<le> a \<and> a < dst + 512 * k
                   then insl_in s 0x170 (insl_pos s 0x170 + (a - dst)) else mem s a)" for a
      unfolding m s2 Suc by (auto simp: SECTSIZE_def intro!: arg_cong [where f = "insl_in s 0x170"])
    ultimately show ?thesis
      using fr s2 Suc by simp
  qed
qed


lemma write_swap_loop_run:
  assumes "sectors_ok n k (readies (inb_in s 0x177))"
  shows "\<exists>s'. write_swap_loop n IO_BASE1 src s = Ok (if k = n then None else Some (- 1), s') \<and>
     trace s' = trace s @
       map (\<lambda>i. Outsl 0x170 (map (mem s) [src + 512 * i ..< src + 512 * i + 512])) [0 ..< k] \<and>
     mem s' = mem s \<and>
     idelock s' = (if k = n then idelock s else False)"
  using assms
proof (induction n arbitrary: k src s)
  case 0
  then show ?case by (auto simp: sectors_ok_def)
next
  case (Suc n)
  show ?case
  proof (cases k)
    case 0
    with Suc.prems sectors_ok_0 [of n "readies (inb_in s 0x177)"]
    obtain r rd where rd: "readies (inb_in s 0x177) = r # rd" and f: "failed r"
      by auto
    from sector_wait [OF rd, of 1] f obtain rest where
      "idewait IO_BASE1 1 s = Ok (- 1, polled 0x177 rest s)" by auto
    then show ?thesis
      using 0 by (auto simp: release_def polled_def)
  next
    case (Suc k')
    with Suc.prems sectors_ok_Suc [of n k' "readies (inb_in s 0x177)"]
    obtain r rd where rd: "readies (inb_in s 0x177) = r # rd" and f: "\<not> failed r"
      and rest: "sectors_ok n k' rd"
      by auto
    from sector_wait [OF rd, of 1] f obtain rest where
      w: "idewait IO_BASE1 1 s = Ok (0, polled 0x177 rest s)" and rr: "readies rest = rd" by auto
    let ?s2 = "outsl_mem IO_BASE1 src (SECTSIZE div 4) (polled 0x177 rest s)"
    have s2: "inb_in ?s2 0x177 = rest"
      "trace ?s2 = trace s @ [Outsl 0x170 (map (mem s) [src ..< src + 512])]"
      "idelock ?s2 = idelock s" "mem ?s2 = mem s"
      by (auto simp: outsl_mem_def outsl_def polled_def IO_BASE1_def SECTSIZE_def)
    from rest rr s2(1) have "sectors_ok n k' (readies (inb_in ?s2 0x177))" by simp
    from Suc.IH [OF this, of "src + SECTSIZE"] obtain s' where
      run: "write_swap_loop n IO_BASE1 (src + SECTSIZE) ?s2 = Ok (if k' = n then None else Some (- 1), s')"
      and tr: "trace s' = trace ?s2 @
         map (\<lambda>i. Outsl 0x170 (map (mem ?s2) [src + SECTSIZE + 512 * i ..< src + SECTSIZE + 512 * i + 512]))
           [0 ..< k']"
      and fr: "mem s' = mem ?s2" "idelock s' = (if k' = n then idelock ?s2 else False)"
      by blast
    have "write_swap_loop (Suc n) IO_BASE1 src s = Ok (if k = Suc n then None else Some (- 1), s')"
      using w run Suc by simp
    moreover have "trace s' = trace s @
       map (\<lambda>i. Outsl 0x170 (map (mem s) [src + 512 * i ..< src + 512 * i + 512])) [0 ..< k]"
      unfolding tr s2 Suc map_upt_Suc by (simp add: SECTSIZE_def add.assoc)
    ultimately show ?thesis
      using fr s2 Suc by simp
  qed
qed

lemma read_swap_run:
  assumes "\<not> idelock s" and "readies (inb_in s 0x177) = r0 # rd" and "sectors_ok 8 k rd"
  shows "\<exists>s'. read_swap secno dst s = Ok (if k = 8 then 0 else - 1, s') \<and> \<not> idelock s' \<and>
              added s s' = swap_regs secno ATA_CMD_READ @ replicate k (Insl 0x170 128) \<and>
              (\<forall>a. mem s' a = (if dst \<le> a \<and> a < dst + 512 * k
                                then insl_in s 0x170 (insl_pos s 0x170 + (a - dst))
                                else mem s a))"
proof -
  let ?s1 = "s\<lparr>idelock := True\<rparr>"
  have "readies (inb_in ?s1 0x177) = r0 # rd"
    using assms(2) by simp
  from sector_wait [OF this, of 0] obtain rest where
    w: "idewait IO_BASE1 0 ?s1 = Ok (0, polled 0x177 rest ?s1)" and rr: "readies rest = rd"
    by auto
  let ?s2 = "swap_setup secno ATA_CMD_READ (polled 0x177 rest ?s1)"
  have s2: "trace ?s2 = trace s @ swap_regs secno ATA_CMD_READ" "mem ?s2 = mem s"
    "insl_in ?s2 = insl_in s" "insl_pos ?s2 = insl_pos s" "idelock ?s2"
    "inb_in ?s2 0x177 = rest"
    by (simp_all add: swap_setup_eq polled_def)
  have ok: "sectors_ok 8 k (readies (inb_in ?s2 0x177))"
    using assms(3) rr s2(6) by simp
  from read_swap_loop_run [OF ok, of dst] obtain s3 where
    run: "read_swap_loop 8 IO_BASE1 dst ?s2 = Ok (if k = 8 then None else Some (- 1), s3)"
    and tr: "trace s3 = trace ?s2 @ replicate k (Insl 0x170 128)"
    and m: "\<And>a. mem s3 a = (if dst \<le> a \<and> a < dst + 512 * k
                 then insl_in ?s2 0x170 (insl_pos ?s2 0x170 + (a - dst))
                 else mem ?s2 a)"
    and lk: "idelock s3 = (if k = 8 then idelock ?s2 else False)"
    by blast
  have res: "read_swap secno dst s =
      (if k = 8 then Ok (0, release s3) else Ok (- 1, s3))"
    using assms(1) w run by (simp add: read_swap_def acquire_def)
  show ?thesis
  proof (cases "k = 8")
    case True
    with res tr m s2 show ?thesis
      by (intro exI [of _ "release s3"]) (simp add: release_def added_def)
  next
    case False
    with res tr m s2 lk show ?thesis
      by (intro exI [of _ s3]) (simp add: added_def)
  qed
qed

lemma write_swap_run:
  assumes "\<not> idelock s" and "readies (inb_in s 0x177) = r0 # rd" and "sectors_ok 8 k rd"
  shows "\<exists>s'. write_swap secno src s = Ok (if k = 8 then 0 else - 1, s') \<and> \<not> idelock s' \<and>
              added s s' = swap_regs secno ATA_CMD_WRITE @
                map (\<lambda>i. Outsl 0x170 (map (mem s) [src + 512 * i ..< src + 512 * i + 512])) [0 ..< k] \<and>
              mem s' = mem s"
proof -
  let ?s1 = "s\<lparr>idelock := True\<rparr>"
  have "readies (inb_in ?s1 0x177) = r0 # rd"
    using assms(2) by simp
  from sector_wait [OF this, of 0] obtain rest where
    w: "idewait IO_BASE1 0 ?s1 = Ok (0, polled 0x177 rest ?s1)" and rr: "readies rest = rd"
    by auto
  let ?s2 = "swap_setup secno ATA_CMD_WRITE (polled 0x177 rest ?s1)"
  have s2: "trace ?s2 = trace s @ swap_regs secno ATA_CMD_WRITE" "mem ?s2 = mem s"
    "insl_in ?s2 = insl_in s" "insl_pos ?s2 = insl_pos s" "idelock ?s2"
    "inb_in ?s2 0x177 = rest"
    by (simp_all add: swap_setup_eq polled_def)
  have ok: "sectors_ok 8 k (readies (inb_in ?s2 0x177))"
    using assms(3) rr s2(6) by simp
  from write_swap_loop_run [OF ok, of src] obtain s3 where
    run: "write_swap_loop 8 IO_BASE1 src ?s2 = Ok (if k = 8 then None else Some (- 1), s3)"
    and tr: "trace s3 = trace ?s2 @
       map (\<lambda>i. Outsl 0x170 (map (mem ?s2) [src + 512 * i ..< src + 512 * i + 512])) [0 ..< k]"
    and m: "mem s3 = mem ?s2"
    and lk: "idelock s3 = (if k = 8 then idelock ?s2 else False)"
    by blast
  have res: "write_swap secno src s =
      (if k = 8 then Ok (0, release s3) else Ok (- 1, s3))"
    using assms(1) w run by (simp add: write_swap_def acquire_def)
  show ?thesis
  proof (cases "k = 8")
    case True
    with res tr m s2 show ?thesis
      by (intro exI [of _ "release s3"]) (simp add: release_def added_def)
  next
    case False
    with res tr m s2 lk show ?thesis
      by (intro exI [of _ s3]) (simp add: added_def)
  qed
qed

text \<open>
  C8. read_swap and write_swap on a free lock, for every starting sector and buffer
  address. Let the sector waits find the first \<open>k\<close> sectors without fault and, when
  \<open>k < 8\<close>, a fault at sector \<open>k\<close>. With \<open>k = 8\<close> the call returns 0 after exactly 8
  transfers of 128 words (512 bytes) each. With \<open>k < 8\<close> it returns -1 at once. In both
  cases the lock is free on return, and exactly the sectors before \<open>k\<close> have been
  transferred and stay so: read_swap has filled the first \<open>512 * k\<close> bytes at \<open>dst\<close> from the
  data port and left all other memory as it was, write_swap has pushed the first \<open>k\<close>
  sectors at \<open>src\<close> and nothing of the later ones.
\<close>

theorem swap_transfer_outcome:
  assumes "\<not> idelock s" and "readies (inb_in s 0x177) = r0 # rd" and "sectors_ok 8 k rd"
  shows "(\<exists>s'. read_swap secno dst s = Ok (if k = 8 then 0 else - 1, s') \<and> \<not> idelock s' \<and>
              added s s' = swap_regs secno ATA_CMD_READ @ replicate k (Insl 0x170 128) \<and>
              (\<forall>a. mem s' a = (if dst \<le> a \<and> a < dst + 512 * k
                                then insl_in s 0x170 (insl_pos s 0x170 + (a - dst))
                                else mem s a))) \<and>
         (\<exists>s'. write_swap secno src s = Ok (if k = 8 then 0 else - 1, s') \<and> \<not> idelock s' \<and>
              added s s' = swap_regs secno ATA_CMD_WRITE @
                map (\<lambda>i. Outsl 0x170 (map (mem s) [src + 512 * i ..< src + 512 * i + 512])) [0 ..< k] \<and>
              mem s' = mem s)"
  using read_swap_run [OF assms, of secno dst] write_swap_run [OF assms, of secno src]
  by blast

theorem swap_transfer_outcome_witness:
  "\<not> idelock swap_fault_example \<and>
   readies (inb_in swap_fault_example 0x177) = 0x50 # [0x50, 0x50, 0x50, 0x51] \<and>
   sectors_ok 8 3 [0x50, 0x50, 0x50, 0x51] \<and>
   (\<exists>s'. read_swap 5 4096 swap_fault_example = Ok (- 1, s') \<and> \<not> idelock s' \<and>
         added swap_fault_example s' =
           swap_regs 5 ATA_CMD_READ @ [Insl 0x170 128, Insl 0x170 128, Insl 0x170 128] \<and>
         mem s' 4095 = 0 \<and> mem s' 4096 = 0xAB \<and> mem s' 5631 = 0xAB \<and> mem s' 5632 = 0) \<and>
   (\<exists>s'. write_swap 5 4096 swap_fault_example = Ok (- 1, s') \<and> \<not> idelock s' \<and>
         added swap_fault_example s' =
           swap_regs 5 ATA_CMD_WRITE @
             [Outsl 0x170 (map (mem swap_fault_example) [4096 ..< 4608]),
              Outsl 0x170 (map (mem swap_fault_example) [4608 ..< 5120]),
              Outsl 0x170 (map (mem swap_fault_example) [5120 ..< 5632])] \<and>
         mem s' = mem swap_fault_example)"
proof -
  have h: "\<not> idelock swap_fault_example"
    "readies (inb_in swap_fault_example 0x177) = 0x50 # [0x50, 0x50, 0x50, 0x51]"
    "sectors_ok 8 3 [0x50, 0x50, 0x50, 0x51]"
    by (simp_all add: swap_fault_example_def idle_example_def readies_def busy_def failed_def
        sectors_ok_def ATA_SR_BSY_def ATA_SR_DF_def ATA_SR_ERR_def)
  have three: "replicate 3 x = [x, x, x]" for x :: effect
    by (simp add: numeral_3_eq_3)
  have upt3: "[0 ..< 3] = [0, 1, 2]"
    by (simp add: numeral_3_eq_3 upt_rec)
  have m: "mem swap_fault_example a = 0" "insl_in swap_fault_example p i = 0xAB" for a p i
    by (simp_all add: swap_fault_example_def idle_example_def)
  from swap_transfer_outcome [OF h, of 5 4096 4096] obtain sr sw where
    r: "read_swap 5 4096 swap_fault_example = Ok (- 1, sr)" "\<not> idelock sr"
      "added swap_fault_example sr = swap_regs 5 ATA_CMD_READ @ replicate 3 (Insl 0x170 128)"
      "\<And>a. mem sr a = (if 4096 \<le> a \<and> a < 4096 + 512 * 3
                   then insl_in swap_fault_example 0x170 (insl_pos swap_fault_example 0x170 + (a - 4096))
                   else mem swap_fault_example a)"
    and w: "write_swap 5 4096 swap_fault_example = Ok (- 1, sw)" "\<not> idelock sw"
      "added swap_fault_example sw = swap_regs 5 ATA_CMD_WRITE @
         map (\<lambda>i. Outsl 0x170 (map (mem swap_fault_example) [4096 + 512 * i ..< 4096 + 512 * i + 512]))
           [0 ..< 3]"
      "mem sw = mem swap_fault_example"
    by auto
  have "mem sr 4095 = 0 \<and> mem sr 4096 = 0xAB \<and> mem sr 5631 = 0xAB \<and> mem sr 5632 = 0"
    by (simp add: r(4) m)
  with h r(1-3) w show ?thesis
    by (auto simp: three upt3)
qed

section \<open>The queue and iderw\<close>

lemma qpath_null: "qpath h 0 as = (as = [])"
  by (cases as) auto

lemma qpath_empty_iff: "qpath h p as \<Longrightarrow> (as = []) = (p = 0)"
  by (cases as) auto

lemma qpath_cong:
  "(\<And>x. x \<in> set as \<Longrightarrow> qnext (h' x) = qnext (h x)) \<Longrightarrow> qpath h' p as = qpath h p as"
  by (induction as arbitrary: p) auto

lemma qpath_snoc_at:
  assumes "qpath h p as" "distinct as" "as \<noteq> []" "l = last as" "b \<notin> set as" "b \<noteq> 0"
    "qnext (h b) = 0"
  shows "qpath (h(l := (h l)\<lparr>qnext := b\<rparr>)) p (as @ [b])"
  using assms
proof (induction as arbitrary: p)
  case Nil
  then show ?case by simp
next
  case (Cons a as)
  show ?case
  proof (cases "as = []")
    case True
    with Cons.prems show ?thesis by auto
  next
    case False
    with Cons.prems have l: "l = last as" by simp
    from False Cons.prems have step: "qpath (h(l := (h l)\<lparr>qnext := b\<rparr>)) (qnext (h a)) (as @ [b])"
      by (intro Cons.IH) auto
    from False Cons.prems l have "l \<noteq> a"
      by (metis distinct.simps(2) last_in_set)
    with step Cons.prems(1) show ?thesis
      by (simp add: fun_upd_def)
  qed
qed

lemma qpath_snoc:
  assumes "qpath h p as" "distinct as" "as \<noteq> []" "b \<notin> set as" "b \<noteq> 0" "qnext (h b) = 0"
  shows "qpath (h(last as := (h (last as))\<lparr>qnext := b\<rparr>)) p (as @ [b])"
  using qpath_snoc_at [OF assms(1-3) refl assms(4-6)] .

lemma insert_queue_path:
  "qpath (bufs s) (deref s pp) as \<Longrightarrow>
   insert_queue s pp = Some (if as = [] then pp else P_qnext (last as))"
proof (induction as arbitrary: pp)
  case Nil
  then show ?case by (subst insert_queue.simps) simp
next
  case (Cons a as)
  then have "insert_queue s (P_qnext a) = Some (if as = [] then P_qnext a else P_qnext (last as))"
    by (intro Cons.IH) simp
  with Cons.prems show ?case
    by (subst insert_queue.simps) auto
qed

lemma start_io_qnext [simp]: "start_io K (x\<lparr>qnext := q\<rparr>) = start_io K x"
  by (simp add: start_io_def start_regs_def start_sector_def)

lemma start_io_flags_data: 
  "dev y = dev x \<Longrightarrow> blockno y = blockno x \<Longrightarrow> flags y = flags x \<Longrightarrow> data y = data x \<Longrightarrow>
   start_io K y = start_io K x"
  by (simp add: start_io_def start_regs_def start_sector_def)


lemma iderw_eq:
  "iderw K b s =
     (if b = 0 then Fault
      else if flags (bufs s b) AND B_BUSY K = 0 then Panic ''iderw: buf not busy'' s
      else if flags (bufs s b) AND (B_VALID K OR B_DIRTY K) = B_VALID K
        then Panic ''iderw: nothing to do'' s
      else if dev (bufs s b) \<noteq> 0 \<and> havedisk1 s = 0
        then Panic ''iderw: ide disk 1 not present'' s
      else if idelock s then Hang
      else case insert_queue (unlinked b s) P_idequeue of
             None \<Rightarrow> Hang
           | Some pp \<Rightarrow>
               bindr (if idequeue (assign pp b (unlinked b s)) = b
                      then idestart K b (assign pp b (unlinked b s))
                      else Ok (assign pp b (unlinked b s)))
                 (iderw_wait K b))"
  by (simp add: iderw_def acquire_def Let_def unlinked_def cong: option.case_cong if_cong)

lemma assign_unlinked:
  "flags (bufs (assign pp b (unlinked b s)) x) = flags (bufs s x)"
  "dev (bufs (assign pp b (unlinked b s)) x) = dev (bufs s x)"
  "blockno (bufs (assign pp b (unlinked b s)) x) = blockno (bufs s x)"
  "data (bufs (assign pp b (unlinked b s)) x) = data (bufs s x)"
  "inb_in (assign pp b (unlinked b s)) = inb_in s"
  "insl_pos (assign pp b (unlinked b s)) = insl_pos s"
  "trace (assign pp b (unlinked b s)) = trace s"
  "idelock (assign pp b (unlinked b s))"
  by (cases pp; simp add: unlinked_def)+

lemma iderw_wait_Ok:
  "iderw_wait K b s = Ok (oc, s') \<Longrightarrow>
   bufs s' = bufs s \<and> inb_in s' = inb_in s \<and> insl_pos s' = insl_pos s \<and>
   idequeue s' = idequeue s \<and> \<not> idelock s' \<and>
   (oc = Blocked \<and> trace s' = trace s @ [Sleep b] \<and>
      flags (bufs s b) AND (B_VALID K OR B_DIRTY K) \<noteq> B_VALID K \<or>
    oc = Returned \<and> trace s' = trace s \<and>
      flags (bufs s b) AND (B_VALID K OR B_DIRTY K) = B_VALID K)"
  by (auto simp: iderw_wait_def sleep_def release_def split: if_splits)

text \<open>What a call of iderw leaves behind, whatever the shape of the queue.\<close>

lemma iderw_frame:
  assumes "iderw K b s = Ok (oc, s') \<or> iderw K b s = Panic m s'"
  shows "(\<forall>x. flags (bufs s' x) = flags (bufs s x) \<and> dev (bufs s' x) = dev (bufs s x) \<and>
              blockno (bufs s' x) = blockno (bufs s x) \<and> data (bufs s' x) = data (bufs s x)) \<and>
         (\<forall>p. p \<noteq> 0x1f7 \<longrightarrow> inb_in s' p = inb_in s p) \<and> insl_pos s' = insl_pos s \<and>
         (iderw K b s = Panic m s' \<longrightarrow> trace s' = trace s) \<and>
         (iderw K b s = Ok (oc, s') \<longrightarrow> b \<noteq> 0 \<and> iderw_contract K (bufs s b) \<and> \<not> idelock s \<and>
            \<not> idelock s' \<and> oc = Blocked \<and>
            (trace s' = trace s @ [Sleep b] \<or>
             trace s' = trace s @ start_io K (bufs s b) @ [Sleep b]))"
proof (cases "b \<noteq> 0 \<and> iderw_contract K (bufs s b) \<and> \<not> (dev (bufs s b) \<noteq> 0 \<and> havedisk1 s = 0)")
  case False
  with assms have "iderw K b s = Panic m s' \<and> s' = s"
    by (auto simp: iderw_eq iderw_contract_def split: if_splits)
  then show ?thesis by simp
next
  case True
  with assms have free: "\<not> idelock s"
    by (auto simp: iderw_eq iderw_contract_def split: if_splits)
  with assms True obtain pp where pp: "insert_queue (unlinked b s) P_idequeue = Some pp"
    by (cases "insert_queue (unlinked b s) P_idequeue") (auto simp: iderw_eq iderw_contract_def)
  let ?s3 = "assign pp b (unlinked b s)"
  from True free pp have eq: "iderw K b s =
      bindr (if idequeue ?s3 = b then idestart K b ?s3 else Ok ?s3) (iderw_wait K b)"
    by (auto simp: iderw_eq iderw_contract_def)
  have sio: "start_io K (bufs ?s3 b) = start_io K (bufs s b)"
    by (rule start_io_flags_data) (simp_all add: assign_unlinked)
  show ?thesis
  proof (cases "if idequeue ?s3 = b then idestart K b ?s3 else Ok ?s3")
    case (Ok s4)
    with eq have w: "iderw K b s = iderw_wait K b s4" by simp
    with assms have out: "iderw K b s = Ok (oc, s')" "iderw_wait K b s4 = Ok (oc, s')"
      by (auto simp: iderw_wait_def split: if_splits)
    from Ok have s4: "bufs s4 = bufs ?s3 \<and> (\<forall>p. p \<noteq> 0x1f7 \<longrightarrow> inb_in s4 p = inb_in ?s3 p) \<and>
        insl_pos s4 = insl_pos ?s3 \<and>
        (trace s4 = trace ?s3 \<or> trace s4 = trace ?s3 @ start_io K (bufs ?s3 b))"
      by (auto split: if_splits dest!: idestart_Ok)
    from True s4 have "flags (bufs s4 b) AND (B_VALID K OR B_DIRTY K) \<noteq> B_VALID K"
      by (simp add: assign_unlinked iderw_contract_def)
    with iderw_wait_Ok [OF out(2)] s4 sio True free out(1) show ?thesis
      by (auto simp: assign_unlinked)
  next
    case (Panic m' sp)
    then have "idestart K b ?s3 = Panic m' sp"
      by (auto split: if_splits)
    from idestart_Panic [OF this] have "sp = ?s3" by simp
    with Panic eq assms have "iderw K b s = Panic m s'" "s' = ?s3"
      by auto
    then show ?thesis
      by (simp add: assign_unlinked)
  next
    case Hang
    with eq assms show ?thesis by auto
  next
    case Fault
    with eq assms show ?thesis by auto
  qed
qed


text \<open>Appending to a well-formed queue a buffer that is not in it.\<close>

lemma iderw_enqueue:
  assumes "qpath (bufs s) (idequeue s) as" "distinct as" "b \<notin> set as"
    and "iderw K b s = Ok (oc, s')"
  shows "qpath (bufs s') (idequeue s') (as @ [b]) \<and>
         idequeue s' = (if idequeue s = 0 then b else idequeue s) \<and>
         trace s' = trace s @ (if idequeue s = 0 then start_io K (bufs s b) else []) @ [Sleep b]"
proof -
  from iderw_frame [of K b s oc s'] assms(4)
  have b0: "b \<noteq> 0" and contract: "iderw_contract K (bufs s b)" and free: "\<not> idelock s"
    by auto
  from assms(4) b0 contract have gate: "\<not> (dev (bufs s b) \<noteq> 0 \<and> havedisk1 s = 0)"
    by (auto simp: iderw_eq iderw_contract_def)
  let ?u = "unlinked b s"
  have u: "bufs ?u = (bufs s)(b := (bufs s b)\<lparr>qnext := 0\<rparr>)" "idequeue ?u = idequeue s"
    "trace ?u = trace s"
    by (simp_all add: unlinked_def)
  have "qpath (bufs ?u) (idequeue s) as = qpath (bufs s) (idequeue s) as"
    using assms(3) by (intro qpath_cong) (auto simp: u)
  with assms(1) have pu: "qpath (bufs ?u) (idequeue ?u) as"
    by (simp add: u)
  then have "insert_queue ?u P_idequeue = Some (if as = [] then P_idequeue else P_qnext (last as))"
    by (intro insert_queue_path) simp
  with b0 contract free gate have eq: "iderw K b s =
      bindr (if idequeue (assign (if as = [] then P_idequeue else P_qnext (last as)) b ?u) = b
             then idestart K b (assign (if as = [] then P_idequeue else P_qnext (last as)) b ?u)
             else Ok (assign (if as = [] then P_idequeue else P_qnext (last as)) b ?u))
        (iderw_wait K b)"
    by (auto simp: iderw_eq iderw_contract_def)
  show ?thesis
  proof (cases "as = []")
    case True
    with assms(1) have q0: "idequeue s = 0" by simp
    let ?s3 = "?u\<lparr>idequeue := b\<rparr>"
    from eq True have "iderw K b s = bindr (idestart K b ?s3) (iderw_wait K b)"
      by simp
    with assms(4) obtain s4 where st: "idestart K b ?s3 = Ok s4" and w: "iderw_wait K b s4 = Ok (oc, s')"
      by (auto simp: bindr_Ok)
    from idestart_Ok [OF st] have s4: "bufs s4 = bufs ?u" "idequeue s4 = b"
      "trace s4 = trace s @ start_io K (bufs s b)"
      by (auto simp: u)
    from iderw_frame [of K b s oc s'] assms(4) have "oc = Blocked" by simp
    with iderw_wait_Ok [OF w] s4 have s': "bufs s' = bufs ?u" "idequeue s' = b"
      "trace s' = trace s @ start_io K (bufs s b) @ [Sleep b]"
      by auto
    show ?thesis
      using s' True q0 b0 by (simp add: u)
  next
    case False
    with assms(1) have q0: "idequeue s \<noteq> 0" and hd: "idequeue s = hd as"
      by (cases as; simp)+
    from False hd assms(3) have neq: "idequeue s \<noteq> b"
      by (metis hd_in_set)
    let ?s3 = "assign (P_qnext (last as)) b ?u"
    have s3: "idequeue ?s3 = idequeue s" "trace ?s3 = trace s"
      "bufs ?s3 = (bufs ?u)(last as := (bufs ?u (last as))\<lparr>qnext := b\<rparr>)"
      by (simp_all add: unlinked_def)
    from eq False neq s3(1) have "iderw K b s = iderw_wait K b ?s3"
      by simp
    with assms(4) have w: "iderw_wait K b ?s3 = Ok (oc, s')" by simp
    from iderw_frame [of K b s oc s'] assms(4) have "oc = Blocked" by simp
    with iderw_wait_Ok [OF w] s3 have s': "bufs s' = bufs ?s3" "idequeue s' = idequeue s"
      "trace s' = trace s @ [Sleep b]"
      by auto
    have "qpath (bufs ?s3) (idequeue s) (as @ [b])"
      unfolding s3(3) using pu assms(2,3) False b0
      by (intro qpath_snoc) (simp_all add: u)
    then show ?thesis
      using s' q0 by simp
  qed
qed

lemma iderw_resume_Ok:
  "iderw_resume K b s = Ok (oc, s') \<Longrightarrow>
   bufs s' = bufs s \<and> inb_in s' = inb_in s \<and> idequeue s' = idequeue s \<and>
   (oc = Blocked \<and> trace s' = trace s @ [Sleep b] \<or>
    oc = Returned \<and> trace s' = trace s \<and>
      flags (bufs s b) AND (B_VALID K OR B_DIRTY K) = B_VALID K)"
  by (auto simp: iderw_resume_def acquire_def bindr_Ok split: if_splits dest!: iderw_wait_Ok)

section \<open>Histories: what iderw returns on\<close>

lemma ideintr_flags:
  assumes "ideintr K s = Ok s'"
  shows "flags (bufs s' x) =
     (if idequeue s \<noteq> 0 \<and> x = idequeue s
      then (flags (bufs s x) OR B_VALID K) AND NOT (B_DIRTY K) else flags (bufs s x)) \<and>
     qnext (bufs s' x) = qnext (bufs s x)"
proof (cases "idequeue s = 0")
  case True
  with assms show ?thesis
    by (auto simp: ideintr_eq split: if_splits)
next
  case False
  let ?b = "idequeue s"
  from ideintr_outcome [OF refl False, of K s'] assms obtain s4 where
    rb: "read_back K ?b (s\<lparr>idelock := True, idequeue := qnext (bufs s ?b)\<rparr>) = Ok s4"
    and bufs: "bufs s' = bufs (completed K ?b s4)"
    by blast
  from read_back_Ok [OF rb] have "flags (bufs s4 y) = flags (bufs s y)"
    "qnext (bufs s4 y) = qnext (bufs s y)" for y
    by simp_all
  with bufs False show ?thesis
    by (simp add: completed_simps)
qed

lemma ideintr_busy:
  assumes "flags_ok K" "ideintr K s = Ok s'"
  shows "flags (bufs s' x) AND B_BUSY K = flags (bufs s x) AND B_BUSY K"
  using ideintr_flags [OF assms(2), of x] assms(1)
  by (auto simp: flags_ok_def keep_flag)

lemma step_busy:
  assumes "flags_ok K" "step K e (s, ws) = Ok (s', ws')"
  shows "(\<forall>x. flags (bufs s' x) AND B_BUSY K = flags (bufs s x) AND B_BUSY K) \<and>
     (\<forall>b \<in> set ws'. b \<in> set ws \<or> flags (bufs s b) AND B_BUSY K \<noteq> 0)"
proof (cases e)
  case (Call b)
  with assms(2) obtain oc where rw: "iderw K b s = Ok (oc, s')"
    and ws': "ws' = (if oc = Blocked then ws @ [b] else ws)"
    by (auto simp: bindr_Ok)
  from iderw_frame [of K b s oc s'] rw have "\<forall>x. flags (bufs s' x) = flags (bufs s x)"
    "iderw_contract K (bufs s b)" by auto
  with ws' show ?thesis
    by (auto simp: iderw_contract_def)
next
  case Intr
  with assms(2) have "ideintr K s = Ok s'" "ws' = ws"
    by (auto simp: bindr_Ok)
  with ideintr_busy [OF assms(1)] show ?thesis by auto
next
  case (Resume b)
  show ?thesis
  proof (cases "b \<in> set ws")
    case True
    with Resume assms(2) obtain oc where rs: "iderw_resume K b s = Ok (oc, s')"
      and ws': "ws' = (if oc = Returned then remove1 b ws else ws)"
      by (auto simp: bindr_Ok)
    from iderw_resume_Ok [OF rs] have "bufs s' = bufs s" by simp
    with ws' show ?thesis
      by (auto dest: notin_set_remove1)
  next
    case False
    with Resume assms(2) show ?thesis by auto
  qed
qed

lemma run_busy:
  assumes "flags_ok K"
  shows "run K evs (s, ws) = Ok (s', ws') \<Longrightarrow> parked_busy K (s, ws) \<Longrightarrow>
     parked_busy K (s', ws') \<and>
     (\<forall>x. flags (bufs s' x) AND B_BUSY K = flags (bufs s x) AND B_BUSY K)"
proof (induction evs arbitrary: s ws)
  case Nil
  then show ?case by simp
next
  case (Cons e evs)
  from Cons.prems(1) obtain s1 ws1 where st: "step K e (s, ws) = Ok (s1, ws1)"
    and rest: "run K evs (s1, ws1) = Ok (s', ws')"
    by (auto simp: bindr_Ok)
  from step_busy [OF assms st] Cons.prems(2) have "parked_busy K (s1, ws1)"
    and keep: "\<forall>x. flags (bufs s1 x) AND B_BUSY K = flags (bufs s x) AND B_BUSY K"
    by (auto simp: parked_busy_def)
  from Cons.IH [OF rest this(1)] keep show ?case by simp
qed


lemma read_swap_loop_bufs:
  "read_swap_loop n io dst s = Ok (r, s') \<Longrightarrow> bufs s' = bufs s"
proof (induction n arbitrary: dst s)
  case 0
  then show ?case by simp
next
  case (Suc n)
  from Suc.prems obtain ret s1 where w: "idewait io 1 s = Ok (ret, s1)"
    by (cases "idewait io 1 s") auto
  from idewait_Ok [OF w] have s1: "bufs s1 = bufs s" by (auto simp: polled_def)
  show ?case
  proof (cases "ret = 0")
    case True
    with Suc.prems w have "read_swap_loop n io (dst + SECTSIZE) (insl_mem io dst (SECTSIZE div 4) s1) = Ok (r, s')"
      by simp
    from Suc.IH [OF this] s1 show ?thesis
      by (simp add: insl_mem_def insl_def)
  next
    case False
    with Suc.prems w s1 show ?thesis
      by (auto simp: release_def)
  qed
qed

lemma write_swap_loop_bufs:
  "write_swap_loop n io src s = Ok (r, s') \<Longrightarrow> bufs s' = bufs s"
proof (induction n arbitrary: src s)
  case 0
  then show ?case by simp
next
  case (Suc n)
  from Suc.prems obtain ret s1 where w: "idewait io 1 s = Ok (ret, s1)"
    by (cases "idewait io 1 s") auto
  from idewait_Ok [OF w] have s1: "bufs s1 = bufs s" by (auto simp: polled_def)
  show ?case
  proof (cases "ret = 0")
    case True
    with Suc.prems w have "write_swap_loop n io (src + SECTSIZE) (outsl_mem io src (SECTSIZE div 4) s1) = Ok (r, s')"
      by simp
    from Suc.IH [OF this] s1 show ?thesis
      by (simp add: outsl_mem_def outsl_def)
  next
    case False
    with Suc.prems w s1 show ?thesis
      by (auto simp: release_def)
  qed
qed

lemma swap_bufs:
  "read_swap secno a s = Ok (r, s') \<or> write_swap secno a s = Ok (r, s') \<Longrightarrow> bufs s' = bufs s"
  by (auto simp: read_swap_def write_swap_def bindr_Ok acquire_def swap_setup_eq release_def
      polled_def split: if_splits option.splits
      dest!: idewait_Ok read_swap_loop_bufs write_swap_loop_bufs)

lemma probe_bufs: "probe n p s = Ok (f, s') \<Longrightarrow> bufs s' = bufs s"
proof (induction n arbitrary: s)
  case 0
  then show ?case by simp
next
  case (Suc n)
  then show ?case
    by (cases "inb_in s p") (auto simp: inb_def split: if_splits)
qed

lemma ideinit_bufs: "ideinit s = Ok s' \<Longrightarrow> bufs s' = bufs s"
  by (auto simp: ideinit_def bindr_Ok Let_def outb_def polled_def split: if_splits
      dest!: idewait_Ok probe_bufs)

text \<open>
  C2. Take any history of driver calls from a state with no caller parked, and a buffer
  whose caller is parked inside iderw after it (its call passed the entry checks). The
  call of iderw itself never returns without parking. When the parked caller runs again
  and iderw returns, the flag word of the buffer has VALID set and DIRTY clear, and BUSY
  is set. No call of the driver changes the BUSY flag of any buffer: not the calls of the
  history, nor read_swap, write_swap or ideinit.
\<close>

theorem iderw_returns_settled:
  assumes "flags_ok K" and "run K evs (s0, []) = Ok (s, ws)"
  shows "(\<forall>b s'. iderw K b s \<noteq> Ok (Returned, s')) \<and>
         (\<forall>b s'. b \<in> set ws \<and> iderw_resume K b s = Ok (Returned, s') \<longrightarrow>
            flag_set (flags (bufs s' b)) (B_VALID K) \<and>
            \<not> flag_set (flags (bufs s' b)) (B_DIRTY K) \<and>
            flag_set (flags (bufs s' b)) (B_BUSY K)) \<and>
         (\<forall>x. flag_set (flags (bufs s x)) (B_BUSY K) = flag_set (flags (bufs s0 x)) (B_BUSY K)) \<and>
         (\<forall>secno a r s'. read_swap secno a s = Ok (r, s') \<or> write_swap secno a s = Ok (r, s') \<longrightarrow>
            bufs s' = bufs s) \<and>
         (\<forall>s'. ideinit s = Ok s' \<longrightarrow> bufs s' = bufs s)"
proof -
  have "parked_busy K (s0, [])"
    by (simp add: parked_busy_def)
  from run_busy [OF assms(1) assms(2) this]
  have parked: "parked_busy K (s, ws)"
    and keep: "\<And>x. flags (bufs s x) AND B_BUSY K = flags (bufs s0 x) AND B_BUSY K"
    by simp_all
  have a: "iderw K b s \<noteq> Ok (Returned, s')" for b s'
    using iderw_frame [of K b s Returned s'] by auto
  have b: "flag_set (flags (bufs s' b)) (B_VALID K) \<and>
            \<not> flag_set (flags (bufs s' b)) (B_DIRTY K) \<and>
            flag_set (flags (bufs s' b)) (B_BUSY K)"
    if "b \<in> set ws" "iderw_resume K b s = Ok (Returned, s')" for b s'
  proof -
    from iderw_resume_Ok [OF that(2)] have same: "bufs s' = bufs s"
      and settled: "flags (bufs s b) AND (B_VALID K OR B_DIRTY K) = B_VALID K"
      by auto
    from parked that(1) have "flags (bufs s b) AND B_BUSY K \<noteq> 0"
      by (auto simp: parked_busy_def)
    then have "flag_set (flags (bufs s b)) (B_BUSY K)"
      using assms(1) by (simp add: flags_ok_def flag_clear_iff)
    moreover from settled have "flag_set (flags (bufs s b)) (B_VALID K) \<and>
        \<not> flag_set (flags (bufs s b)) (B_DIRTY K)"
      using assms(1) settled_iff [of "B_VALID K" "B_DIRTY K" "flags (bufs s b)"]
      by (simp add: flags_ok_def)
    ultimately show ?thesis
      using same by simp
  qed
  have c: "flag_set (flags (bufs s x)) (B_BUSY K) = flag_set (flags (bufs s0 x)) (B_BUSY K)" for x
    using keep [of x] by (simp add: flag_set_def)
  from a b c swap_bufs ideinit_bufs show ?thesis
    by blast
qed

lemma write_example_run:
  "\<exists>s s'. run hdr_example [Call 1, Intr] (write_example, []) = Ok (s, [1]) \<and>
     iderw_resume hdr_example 1 s = Ok (Returned, s')"
  by (simp add: iderw_eq ideintr_eq read_back_def completed_def idestart_eq iderw_wait_def
      iderw_resume_def acquire_def release_def sleep_def wakeup_def unlinked_def
      insert_queue.simps write_example_def with_buf_def idle_example_def buf_example_def
      hdr_example_def busy_def ATA_SR_BSY_def SECTSIZE_def)

theorem iderw_returns_settled_witness:
  "flags_ok hdr_example \<and>
   (\<exists>s s'. run hdr_example [Call 1, Intr] (write_example, []) = Ok (s, [1]) \<and>
      iderw_resume hdr_example 1 s = Ok (Returned, s') \<and>
      flag_set (flags (bufs s' 1)) (B_VALID hdr_example) \<and>
      \<not> flag_set (flags (bufs s' 1)) (B_DIRTY hdr_example) \<and>
      flag_set (flags (bufs s' 1)) (B_BUSY hdr_example))"
proof -
  from write_example_run obtain s s' where
    r: "run hdr_example [Call 1, Intr] (write_example, []) = Ok (s, [1])"
    and ret: "iderw_resume hdr_example 1 s = Ok (Returned, s')"
    by blast
  from iderw_returns_settled [OF flags_ok_example r] ret flags_ok_example r
  show ?thesis
    by (metis list.set_intros(1))
qed

section \<open>Histories: one command in flight\<close>

lemma pending_append: "pending n (xs @ ys) = pending (pending n xs) ys"
  by (induction xs arbitrary: n) auto

lemma one_at_a_time_append:
  "one_at_a_time n (xs @ ys) = (one_at_a_time n xs \<and> one_at_a_time (pending n xs) ys)"
  by (induction xs arbitrary: n) auto

lemma pending_start_io: "pending n (start_io K x) = Suc n"
  by (simp add: start_io_def start_regs_def)

lemma one_at_a_time_start_io: "one_at_a_time n (start_io K x) = (n = 0)"
  by (auto simp: start_io_def start_regs_def)

lemma queue_inv_step:
  assumes inv: "queue_inv K (s, ws)" and free: "call_free e (s, ws)"
    and st: "step K e (s, ws) = Ok (s', ws')"
  shows "queue_inv K (s', ws')"
proof -
  from inv obtain as where path: "qpath (bufs s) (idequeue s) as" and dist: "distinct as"
    and sub: "set as \<subseteq> set ws"
    and open_: "\<And>a. a \<in> set as \<Longrightarrow> flags (bufs s a) AND (B_VALID K OR B_DIRTY K) \<noteq> B_VALID K"
    and one: "one_at_a_time 0 (trace s)"
    and pend: "pending 0 (trace s) = (if idequeue s = 0 then 0 else 1)"
    by (auto simp: queue_inv_def)
  show ?thesis
  proof (cases e)
    case (Call b)
    with free have bws: "b \<notin> set ws" by simp
    with sub have bas: "b \<notin> set as" by auto
    from Call st obtain oc where rw: "iderw K b s = Ok (oc, s')"
      and ws': "ws' = (if oc = Blocked then ws @ [b] else ws)"
      by (auto simp: bindr_Ok)
    from iderw_frame [of K b s oc s'] rw
    have fl: "\<And>x. flags (bufs s' x) = flags (bufs s x)" and contract: "iderw_contract K (bufs s b)"
      and oc: "oc = Blocked" by auto
    from iderw_enqueue [OF path dist bas rw]
    have path': "qpath (bufs s') (idequeue s') (as @ [b])"
      and q': "idequeue s' = (if idequeue s = 0 then b else idequeue s)"
      and tr': "trace s' = trace s @ (if idequeue s = 0 then start_io K (bufs s b) else []) @ [Sleep b]"
      by blast+
    from iderw_frame [of K b s oc s'] rw have b0: "b \<noteq> 0" by simp
    have "one_at_a_time 0 (trace s') \<and> pending 0 (trace s') = (if idequeue s' = 0 then 0 else 1)"
      using one pend b0
      by (simp add: tr' q' one_at_a_time_append pending_append pending_start_io one_at_a_time_start_io)
    moreover have "\<forall>a \<in> set (as @ [b]). flags (bufs s' a) AND (B_VALID K OR B_DIRTY K) \<noteq> B_VALID K"
      using open_ contract by (auto simp: fl iderw_contract_def)
    moreover have "distinct (as @ [b])" "set (as @ [b]) \<subseteq> set ws'"
      using dist bas sub ws' oc by auto
    ultimately show ?thesis
      unfolding queue_inv_def using path' by (intro exI [of _ "as @ [b]"]) simp
  next
    case Intr
    with st have ir: "ideintr K s = Ok s'" and ws': "ws' = ws"
      by (auto simp: bindr_Ok)
    show ?thesis
    proof (cases "idequeue s = 0")
      case True
      with ir have "s' = s" by (auto simp: ideintr_eq split: if_splits)
      with inv ws' show ?thesis by simp
    next
      case False
      let ?a = "idequeue s"
      from path False obtain as' where as: "as = ?a # as'" and path2: "qpath (bufs s) (qnext (bufs s ?a)) as'"
        by (cases as) auto
      from ideintr_outcome [OF refl False, of K s'] ir obtain s4 where
        rb: "read_back K ?a (s\<lparr>idelock := True, idequeue := qnext (bufs s ?a)\<rparr>) = Ok s4"
        and tr': "trace s' = trace s4 @ [Wakeup ?a] @
            (if qnext (bufs s ?a) = 0 then [] else start_io K (bufs s' (qnext (bufs s ?a))))"
        and q': "idequeue s' = qnext (bufs s ?a)"
        by auto
      from read_back_Ok [OF rb] have tr4:
        "trace s4 = trace s \<or> trace s4 = trace s @ [Insl 0x1f0 (BSIZE K div 4)]"
        by auto
      have fl: "flags (bufs s' x) = flags (bufs s x)" if "x \<noteq> ?a" for x
        using ideintr_flags [OF ir, of x] that by simp
      have qn: "qnext (bufs s' x) = qnext (bufs s x)" for x
        using ideintr_flags [OF ir, of x] by simp
      have "qpath (bufs s') (qnext (bufs s ?a)) as' = qpath (bufs s) (qnext (bufs s ?a)) as'"
        by (intro qpath_cong) (simp add: qn)
      with path2 q' have path': "qpath (bufs s') (idequeue s') as'" by simp
      have "one_at_a_time 0 (trace s') \<and> pending 0 (trace s') = (if idequeue s' = 0 then 0 else 1)"
        using one pend False tr4
        by (auto simp: tr' q' one_at_a_time_append pending_append pending_start_io
            one_at_a_time_start_io)
      moreover have "\<forall>a \<in> set as'. flags (bufs s' a) AND (B_VALID K OR B_DIRTY K) \<noteq> B_VALID K"
      proof
        fix x assume x: "x \<in> set as'"
        with dist as have "x \<noteq> ?a" by auto
        from fl [OF this] open_ [of x] x as
        show "flags (bufs s' x) AND (B_VALID K OR B_DIRTY K) \<noteq> B_VALID K" by simp
      qed
      moreover have "distinct as'" "set as' \<subseteq> set ws'"
        using dist sub as ws' by auto
      ultimately show ?thesis
        unfolding queue_inv_def using path' by (intro exI [of _ as']) simp
    qed
  next
    case (Resume b)
    show ?thesis
    proof (cases "b \<in> set ws")
      case False
      with Resume st inv show ?thesis by auto
    next
      case True
      with Resume st obtain oc where rs: "iderw_resume K b s = Ok (oc, s')"
        and ws': "ws' = (if oc = Returned then remove1 b ws else ws)"
        by (auto simp: bindr_Ok)
      from iderw_resume_Ok [OF rs] have same: "bufs s' = bufs s" "idequeue s' = idequeue s"
        and tr': "trace s' = trace s @ [Sleep b] \<or> trace s' = trace s"
        and ret: "oc = Returned \<Longrightarrow> flags (bufs s b) AND (B_VALID K OR B_DIRTY K) = B_VALID K"
        by auto
      have "set as \<subseteq> set ws'"
      proof (cases "oc = Returned")
        case True
        with ret open_ have nb: "b \<notin> set as" by auto
        show ?thesis
        proof
          fix x assume x: "x \<in> set as"
          with nb have "x \<noteq> b" by auto
          with x sub show "x \<in> set ws'"
            by (auto simp: ws' True)
        qed
      next
        case False
        with sub ws' show ?thesis by simp
      qed
      moreover have "one_at_a_time 0 (trace s') \<and> pending 0 (trace s') = (if idequeue s' = 0 then 0 else 1)"
        using one pend tr' same
        by (auto simp: one_at_a_time_append pending_append)
      ultimately show ?thesis
        unfolding queue_inv_def using path dist open_ same by (intro exI [of _ as]) simp
    qed
  qed
qed

lemma queue_inv_run:
  "queue_inv K c \<Longrightarrow> owned K evs c \<Longrightarrow> run K evs c = Ok c' \<Longrightarrow> queue_inv K c'"
proof (induction evs arbitrary: c)
  case Nil
  then show ?case by simp
next
  case (Cons e evs)
  from Cons.prems(3) obtain c1 where st: "step K e c = Ok c1" and rest: "run K evs c1 = Ok c'"
    by (auto simp: bindr_Ok)
  from Cons.prems(2) st have free: "call_free e c" and own: "owned K evs c1"
    by simp_all
  from queue_inv_step [of K "fst c" "snd c" e "fst c1" "snd c1"] Cons.prems(1) free st
  have "queue_inv K c1" by simp
  from Cons.IH [OF this own rest] show ?case .
qed

text \<open>
  C1 (as amended). Take a history of iderw calls, interrupts and resumptions from an
  idle driver (empty queue) in which no buffer is passed to iderw while an earlier call
  of iderw on it has not returned. Then along the whole trace at most one command is in
  flight: no command is written to the command register before the wakeup for the one
  before it, and a command is in flight exactly when the queue is not empty. From the
  state reached, iderw on a buffer that no parked caller owns starts the request exactly
  when the queue was empty, and then the request is the head; a call that panics starts
  nothing. ideintr on a non-empty queue pops the head, wakes its caller and then starts
  the new head exactly when there is one.
\<close>

theorem one_start_in_flight:
  assumes "idequeue s0 = 0" and "trace s0 = []"
    and "owned K evs (s0, [])" and "run K evs (s0, []) = Ok (s, ws)"
  shows "one_at_a_time 0 (trace s) \<and>
         pending 0 (trace s) = (if idequeue s = 0 then 0 else 1) \<and>
         (\<forall>b oc s'. b \<notin> set ws \<and> iderw K b s = Ok (oc, s') \<longrightarrow>
            idequeue s' = (if idequeue s = 0 then b else idequeue s) \<and>
            added s s' = (if idequeue s = 0 then start_io K (bufs s b) else []) @ [Sleep b]) \<and>
         (\<forall>b m s'. iderw K b s = Panic m s' \<longrightarrow> added s s' = []) \<and>
         (\<forall>s' m. idequeue s \<noteq> 0 \<and> (ideintr K s = Ok s' \<or> ideintr K s = Panic m s') \<longrightarrow>
            idequeue s' = qnext (bufs s (idequeue s)) \<and>
            (\<exists>pull. (pull = [] \<or> pull = [Insl 0x1f0 (BSIZE K div 4)]) \<and>
               added s s' = pull @ [Wakeup (idequeue s)] @
                 (if ideintr K s = Ok s' \<and> idequeue s' \<noteq> 0
                  then start_io K (bufs s' (idequeue s')) else [])))"
proof -
  have "queue_inv K (s0, [])"
    using assms(1,2) by (simp add: queue_inv_def)
  from queue_inv_run [OF this assms(3,4)] obtain as where
    path: "qpath (bufs s) (idequeue s) as" and dist: "distinct as" and sub: "set as \<subseteq> set ws"
    and one: "one_at_a_time 0 (trace s)"
    and pend: "pending 0 (trace s) = (if idequeue s = 0 then 0 else 1)"
    by (auto simp: queue_inv_def)
  have call: "\<forall>b oc s'. b \<notin> set ws \<and> iderw K b s = Ok (oc, s') \<longrightarrow>
            idequeue s' = (if idequeue s = 0 then b else idequeue s) \<and>
            added s s' = (if idequeue s = 0 then start_io K (bufs s b) else []) @ [Sleep b]"
  proof (intro allI impI)
    fix b oc s'
    assume h: "b \<notin> set ws \<and> iderw K b s = Ok (oc, s')"
    then have rw: "iderw K b s = Ok (oc, s')" by simp
    from h sub have "b \<notin> set as" by auto
    from iderw_enqueue [OF path dist this rw]
    show "idequeue s' = (if idequeue s = 0 then b else idequeue s) \<and>
            added s s' = (if idequeue s = 0 then start_io K (bufs s b) else []) @ [Sleep b]"
      by (simp add: added_def)
  qed
  have halt: "\<forall>b m s'. iderw K b s = Panic m s' \<longrightarrow> added s s' = []"
  proof (intro allI impI)
    fix b m s'
    assume "iderw K b s = Panic m s'"
    with iderw_frame [of K b s Blocked s' m] show "added s s' = []"
      by (simp add: added_def)
  qed
  have intr: "\<forall>s' m. idequeue s \<noteq> 0 \<and> (ideintr K s = Ok s' \<or> ideintr K s = Panic m s') \<longrightarrow>
            idequeue s' = qnext (bufs s (idequeue s)) \<and>
            (\<exists>pull. (pull = [] \<or> pull = [Insl 0x1f0 (BSIZE K div 4)]) \<and>
               added s s' = pull @ [Wakeup (idequeue s)] @
                 (if ideintr K s = Ok s' \<and> idequeue s' \<noteq> 0
                  then start_io K (bufs s' (idequeue s')) else []))"
  proof (intro allI impI)
    fix s' m
    assume h: "idequeue s \<noteq> 0 \<and> (ideintr K s = Ok s' \<or> ideintr K s = Panic m s')"
    then have q: "idequeue s \<noteq> 0" and out: "ideintr K s = Ok s' \<or> ideintr K s = Panic m s'"
      by blast+
    let ?a = "idequeue s"
    let ?st = "if ideintr K s = Ok s' \<and> idequeue s' \<noteq> 0
                  then start_io K (bufs s' (idequeue s')) else []"
    from ideintr_outcome [OF refl q out] obtain s4 st where
      rb: "read_back K ?a (s\<lparr>idelock := True, idequeue := qnext (bufs s ?a)\<rparr>) = Ok s4"
      and tr': "trace s' = trace s4 @ [Wakeup ?a] @ st"
      and q': "idequeue s' = qnext (bufs s ?a)"
      and ok: "ideintr K s = Ok s' \<longrightarrow>
          st = (if qnext (bufs s ?a) = 0 then [] else start_io K (bufs s' (qnext (bufs s ?a))))"
      and pn: "ideintr K s = Panic m s' \<longrightarrow> st = [] \<and> qnext (bufs s ?a) \<noteq> 0"
      by blast
    have st: "st = ?st"
    proof (cases "ideintr K s = Ok s'")
      case True
      with ok q' show ?thesis by simp
    next
      case False
      with out have "ideintr K s = Panic m s'" by simp
      with pn False show ?thesis by simp
    qed
    from read_back_Ok [OF rb] have
      "trace s4 = trace s @ [] \<or> trace s4 = trace s @ [Insl 0x1f0 (BSIZE K div 4)]"
      by auto
    then obtain pull where pull: "pull = [] \<or> pull = [Insl 0x1f0 (BSIZE K div 4)]"
      and tr4: "trace s4 = trace s @ pull" by blast
    have "added s s' = pull @ [Wakeup ?a] @ st"
      using tr' tr4 by (simp add: added_def)
    then have "added s s' = pull @ [Wakeup ?a] @ ?st"
      using st by simp
    with pull q' show "idequeue s' = qnext (bufs s (idequeue s)) \<and>
            (\<exists>pull. (pull = [] \<or> pull = [Insl 0x1f0 (BSIZE K div 4)]) \<and>
               added s s' = pull @ [Wakeup (idequeue s)] @ ?st)"
      by blast
  qed
  show ?thesis
    by (intro conjI one pend call halt intr)
qed


lemma buf_example_simps:
  "flags buf_example = 1" "dev buf_example = 0" "blockno buf_example = 0" "qnext buf_example = 0"
  by (simp_all add: buf_example_def)

lemma write_example_history:
  "owned hdr_example [Call 1, Call 2, Intr] (write_example, []) \<and>
   (\<exists>s. run hdr_example [Call 1, Call 2, Intr] (write_example, []) = Ok (s, [1, 2]) \<and>
        idequeue s = 2)"
  by (simp add: iderw_eq ideintr_eq read_back_def completed_def idestart_eq iderw_wait_def
      acquire_def release_def sleep_def wakeup_def unlinked_def
      insert_queue.simps write_example_def with_buf_def idle_example_def buf_example_simps
      hdr_example_def busy_def ATA_SR_BSY_def SECTSIZE_def)

theorem one_start_in_flight_witness:
  "idequeue write_example = 0 \<and> trace write_example = [] \<and>
   owned hdr_example [Call 1, Call 2, Intr] (write_example, []) \<and>
   (\<exists>s. run hdr_example [Call 1, Call 2, Intr] (write_example, []) = Ok (s, [1, 2]) \<and>
        idequeue s = 2 \<and> one_at_a_time 0 (trace s) \<and> pending 0 (trace s) = 1)"
proof -
  have h: "idequeue write_example = 0" "trace write_example = []"
    by (simp_all add: write_example_def with_buf_def idle_example_def)
  from write_example_history obtain s where
    own: "owned hdr_example [Call 1, Call 2, Intr] (write_example, [])"
    and r: "run hdr_example [Call 1, Call 2, Intr] (write_example, []) = Ok (s, [1, 2])"
    and q: "idequeue s = 2"
    by blast
  from one_start_in_flight [OF h own r] q
  have "one_at_a_time 0 (trace s) \<and> pending 0 (trace s) = 1"
    by simp
  with h own r q show ?thesis by blast
qed

text \<open>
  C1 as stated, for every sequence of iderw calls, fails: when iderw is called on the
  buffer at the head of the queue again before its completion, the append loop ends at the
  buffer's own link, the head test holds although the queue was not empty, and a second
  command is written with no wakeup in between.
\<close>

theorem double_call_counterexample:
  "run hdr_example [Call 1] (idle_example, []) \<noteq> Hang \<and>
   res_trace (run hdr_example [Call 1] (idle_example, [])) =
     start_io hdr_example buf_example @ [Sleep 1] \<and>
   res_trace (run hdr_example [Call 1, Call 1] (idle_example, [])) =
     start_io hdr_example buf_example @ [Sleep 1] @ start_io hdr_example buf_example @ [Sleep 1] \<and>
   pending 0 (res_trace (run hdr_example [Call 1, Call 1] (idle_example, []))) = 2 \<and>
   \<not> one_at_a_time 0 (res_trace (run hdr_example [Call 1, Call 1] (idle_example, [])))"
proof -
  have one: "run hdr_example [Call 1] (idle_example, []) \<noteq> Hang \<and>
      res_trace (run hdr_example [Call 1] (idle_example, [])) =
        start_io hdr_example buf_example @ [Sleep 1]"
    by (simp add: iderw_eq idestart_eq iderw_wait_def sleep_def unlinked_def
        insert_queue.simps idle_example_def buf_example_simps
        hdr_example_def busy_def ATA_SR_BSY_def SECTSIZE_def)
  have two: "res_trace (run hdr_example [Call 1, Call 1] (idle_example, [])) =
     start_io hdr_example buf_example @ [Sleep 1] @ start_io hdr_example buf_example @ [Sleep 1]"
    by (simp add: iderw_eq idestart_eq iderw_wait_def sleep_def unlinked_def
        insert_queue.simps idle_example_def buf_example_simps
        hdr_example_def busy_def ATA_SR_BSY_def SECTSIZE_def)
  show ?thesis
    unfolding two using one
    by (simp add: pending_append one_at_a_time_append pending_start_io one_at_a_time_start_io)
qed

section \<open>The channels\<close>

lemma bit16: "bit (16 :: int) n = (n = 4)"
proof -
  have "bit (2 ^ 4 :: int) n = (n = 4)"
    by (simp only: bit_exp_iff) auto
  then show ?thesis by simp
qed

lemma bit15: "bit (15 :: int) n = (n < 4)"
proof -
  have "bit (mask 4 :: int) n = (n < 4)"
    by (simp only: bit_mask_iff) auto
  then show ?thesis by (simp add: mask_eq_exp_minus_1)
qed

lemma bit224: "bit (224 :: int) n = (5 \<le> n \<and> n < 8)"
proof -
  have "bit (push_bit 5 (mask 3) :: int) n = (5 \<le> n \<and> n < 8)"
    by (simp only: bit_push_bit_iff bit_mask_iff) auto
  then show ?thesis by (simp add: mask_eq_exp_minus_1 push_bit_eq_mult)
qed

lemma drive_byte:
  "(ucast (0xe0 OR push_bit 4 (d AND 1) OR (lo AND 0x0f) :: uint) :: uchar) =
   (ucast (0xe0 OR push_bit 4 (d0 AND 1) OR (lo AND 0x0f) :: uint) AND NOT 0x10) OR
   push_bit 4 (ucast (d AND 1))"
  apply (rule bit_word_eqI)
  apply (auto simp: bit_simps bit16 bit15 bit224)
  done

lemma ports_disjoint: "\<not> (primary_port p \<and> secondary_port p)"
  by (auto simp: primary_port_def secondary_port_def word_le_nat_alt)

lemma start_io_dev:
  "start_io K (x\<lparr>dev := d\<rparr>) = map (drive_select d) (start_io K x)"
  using drive_byte [of d "signed_drop_bit 24 (start_sector K x)" "dev x"]
  by (simp add: start_io_def start_regs_def start_sector_def)

lemma start_io_primary:
  "e \<in> set (start_io K x) \<Longrightarrow> p \<in> set (effect_ports e) \<Longrightarrow> primary_port p"
  by (auto simp: start_io_def start_regs_def primary_port_def split: if_splits)

lemma touches_onlyI:
  assumes "trace s' = trace s @ es"
    and "\<And>e p. e \<in> set es \<Longrightarrow> p \<in> set (effect_ports e) \<Longrightarrow> P p"
    and "\<And>p. \<not> P p \<Longrightarrow> inb_in s' p = inb_in s p \<and> insl_pos s' p = insl_pos s p"
  shows "touches_only P s s'"
  using assms by (auto simp: touches_only_def added_def)

lemma touches_onlyD:
  assumes "touches_only P s s'"
  shows "\<exists>es. trace s' = trace s @ es \<and> (\<forall>e \<in> set es. \<forall>p \<in> set (effect_ports e). P p) \<and>
     (\<forall>p. \<not> P p \<longrightarrow> inb_in s' p = inb_in s p \<and> insl_pos s' p = insl_pos s p)"
proof -
  from assms have "trace s' = trace s @ added s s'"
    unfolding touches_only_def added_def by (metis append_take_drop_id)
  with assms show ?thesis
    unfolding touches_only_def by blast
qed

lemma touches_only_refl: "touches_only P s s"
  by (rule touches_onlyI [of _ _ "[]"]) simp_all

lemma touches_only_trans:
  assumes "touches_only P s s1" "touches_only P s1 s2"
  shows "touches_only P s s2"
proof -
  from touches_onlyD [OF assms(1)] obtain es where
    1: "trace s1 = trace s @ es" "\<forall>e \<in> set es. \<forall>p \<in> set (effect_ports e). P p"
    "\<forall>p. \<not> P p \<longrightarrow> inb_in s1 p = inb_in s p \<and> insl_pos s1 p = insl_pos s p"
    by blast
  from touches_onlyD [OF assms(2)] obtain fs where
    2: "trace s2 = trace s1 @ fs" "\<forall>e \<in> set fs. \<forall>p \<in> set (effect_ports e). P p"
    "\<forall>p. \<not> P p \<longrightarrow> inb_in s2 p = inb_in s1 p \<and> insl_pos s2 p = insl_pos s1 p"
    by blast
  show ?thesis
    by (rule touches_onlyI [of _ _ "es @ fs"]) (use 1 2 in auto)
qed

lemma idestart_touches:
  assumes "idestart K b s = Ok s' \<or> idestart K b s = Panic m s'"
  shows "touches_only primary_port s s'"
  using assms
proof
  assume "idestart K b s = Ok s'"
  from idestart_Ok [OF this] obtain rs where
    "s' = s\<lparr>inb_in := (inb_in s)(0x1f7 := rs), trace := trace s @ start_io K (bufs s b)\<rparr>"
    by blast
  then show ?thesis
    by (intro touches_onlyI [of _ _ "start_io K (bufs s b)"])
      (auto simp: primary_port_def dest: start_io_primary)
next
  assume "idestart K b s = Panic m s'"
  from idestart_Panic [OF this] show ?thesis
    by (simp add: touches_only_refl)
qed

lemma iderw_touches:
  assumes "iderw K b s = Ok (oc, s') \<or> iderw K b s = Panic m s'"
  shows "touches_only primary_port s s'"
proof -
  from iderw_frame [OF assms] have inb: "\<And>p. p \<noteq> 0x1f7 \<Longrightarrow> inb_in s' p = inb_in s p"
    and pos: "insl_pos s' = insl_pos s"
    and tr: "trace s' = trace s @ [] \<or> trace s' = trace s @ [Sleep b] \<or>
             trace s' = trace s @ start_io K (bufs s b) @ [Sleep b]"
    using assms by auto
  have p7: "primary_port 0x1f7" by (simp add: primary_port_def)
  have np: "inb_in s' p = inb_in s p \<and> insl_pos s' p = insl_pos s p" if "\<not> primary_port p" for p
  proof -
    from that p7 have "p \<noteq> 0x1f7" by auto
    with inb pos show ?thesis by simp
  qed
  from tr show ?thesis
  proof (elim disjE)
    assume "trace s' = trace s @ []"
    then show ?thesis
      by (rule touches_onlyI) (use np in auto)
  next
    assume "trace s' = trace s @ [Sleep b]"
    then show ?thesis
      by (rule touches_onlyI) (use np in auto)
  next
    assume "trace s' = trace s @ start_io K (bufs s b) @ [Sleep b]"
    then show ?thesis
      by (rule touches_onlyI) (use np in \<open>auto dest: start_io_primary\<close>)
  qed
qed

lemma ideintr_touches:
  assumes "ideintr K s = Ok s' \<or> ideintr K s = Panic m s'"
  shows "touches_only primary_port s s'"
proof (cases "idequeue s = 0")
  case True
  with assms have "s' = s"
    by (auto simp: ideintr_eq split: if_splits)
  then show ?thesis by (simp add: touches_only_refl)
next
  case False
  let ?a = "idequeue s"
  from ideintr_outcome [OF refl False assms] obtain s4 st where
    rb: "read_back K ?a (s\<lparr>idelock := True, idequeue := qnext (bufs s ?a)\<rparr>) = Ok s4"
    and tr': "trace s' = trace s4 @ [Wakeup ?a] @ st"
    and pos': "insl_pos s' = insl_pos s4"
    and inb': "\<forall>p. p \<noteq> 0x1f7 \<longrightarrow> inb_in s' p = inb_in s p"
    and ok: "ideintr K s = Ok s' \<longrightarrow>
        st = (if qnext (bufs s ?a) = 0 then [] else start_io K (bufs s' (qnext (bufs s ?a))))"
    and pn: "ideintr K s = Panic m s' \<longrightarrow> st = [] \<and> qnext (bufs s ?a) \<noteq> 0"
    by blast
  from assms ok pn have st: "st = [] \<or> st = start_io K (bufs s' (qnext (bufs s ?a)))"
    by (auto split: if_splits)
  from read_back_Ok [OF rb] have pos4: "\<And>p. p \<noteq> 0x1f0 \<Longrightarrow> insl_pos s4 p = insl_pos s p"
    and tr4: "trace s4 = trace s @ [] \<or> trace s4 = trace s @ [Insl 0x1f0 (BSIZE K div 4)]"
    by auto
  then obtain pull where pull: "pull = [] \<or> pull = [Insl 0x1f0 (BSIZE K div 4)]"
    and t4: "trace s4 = trace s @ pull" by blast
  have p: "primary_port 0x1f7" "primary_port 0x1f0" by (simp_all add: primary_port_def)
  have "trace s' = trace s @ (pull @ [Wakeup ?a] @ st)"
    using tr' t4 by simp
  then show ?thesis
  proof (rule touches_onlyI)
    fix e q assume "e \<in> set (pull @ [Wakeup ?a] @ st)" "q \<in> set (effect_ports e)"
    with pull st p show "primary_port q"
      by (auto dest: start_io_primary)
  next
    fix q assume "\<not> primary_port q"
    with p have "q \<noteq> 0x1f7" "q \<noteq> 0x1f0" by auto
    with inb' pos' pos4 show "inb_in s' q = inb_in s q \<and> insl_pos s' q = insl_pos s q"
      by simp
  qed
qed


lemma polled_touches: "P p \<Longrightarrow> touches_only P s (polled p rs s)"
  by (rule touches_onlyI [of _ _ "[]"]) (auto simp: polled_def)

lemma release_touches: "touches_only P s (release s)"
  by (rule touches_onlyI [of _ _ "[]"]) (auto simp: release_def)

lemma idewait_touches:
  "idewait io ce s = Ok (r, s1) \<Longrightarrow> P (io + ATA_STATUS) \<Longrightarrow> touches_only P s s1"
  by (auto dest!: idewait_Ok intro: polled_touches)

lemma insl_mem_touches: "P p \<Longrightarrow> touches_only P s (insl_mem p dst cnt s)"
  by (rule touches_onlyI [of _ _ "[Insl p cnt]"]) (auto simp: insl_mem_def insl_def)

lemma outsl_mem_touches: "P p \<Longrightarrow> touches_only P s (outsl_mem p src cnt s)"
  by (rule touches_onlyI [of _ _ "[Outsl p (take (4 * cnt) (map (mem s) [src ..< src + 4 * cnt]))]"])
    (auto simp: outsl_mem_def outsl_def)

lemma swap_regs_secondary:
  "e \<in> set (swap_regs secno cmd) \<Longrightarrow> p \<in> set (effect_ports e) \<Longrightarrow> secondary_port p"
  by (auto simp: swap_regs_def secondary_port_def)

lemma swap_setup_touches: "touches_only secondary_port s (swap_setup secno cmd s)"
  by (rule touches_onlyI [of _ _ "swap_regs secno cmd"])
    (auto simp: swap_setup_eq dest: swap_regs_secondary)

lemma secondary_ports: "secondary_port IO_BASE1" "secondary_port (IO_BASE1 + ATA_STATUS)"
  by (simp_all add: secondary_port_def IO_BASE1_def ATA_STATUS_def)

lemma idewait1_touches:
  "idewait IO_BASE1 ce s = Ok (r, s1) \<Longrightarrow> touches_only secondary_port s s1"
  by (rule idewait_touches [where P = secondary_port], assumption, rule secondary_ports(2))

lemma insl_mem1_touches: "touches_only secondary_port s (insl_mem IO_BASE1 dst cnt s)"
  by (rule insl_mem_touches [where P = secondary_port], rule secondary_ports(1))

lemma outsl_mem1_touches: "touches_only secondary_port s (outsl_mem IO_BASE1 src cnt s)"
  by (rule outsl_mem_touches [where P = secondary_port], rule secondary_ports(1))

lemma read_swap_loop_touches:
  "read_swap_loop n IO_BASE1 dst s = Ok (r, s') \<Longrightarrow> touches_only secondary_port s s'"
proof (induction n arbitrary: dst s)
  case 0
  then show ?case by (simp add: touches_only_refl)
next
  case (Suc n)
  from Suc.prems obtain ret s1 where w: "idewait IO_BASE1 1 s = Ok (ret, s1)"
    by (cases "idewait IO_BASE1 1 s") auto
  from idewait1_touches [OF w] have t1: "touches_only secondary_port s s1" .
  show ?case
  proof (cases "ret = 0")
    case True
    let ?s2 = "insl_mem IO_BASE1 dst (SECTSIZE div 4) s1"
    from True Suc.prems w have "read_swap_loop n IO_BASE1 (dst + SECTSIZE) ?s2 = Ok (r, s')"
      by simp
    from Suc.IH [OF this] have "touches_only secondary_port ?s2 s'" .
    with t1 insl_mem1_touches [of s1 dst "SECTSIZE div 4"] show ?thesis
      by (blast intro: touches_only_trans)
  next
    case False
    with Suc.prems w have "s' = release s1" by auto
    with t1 release_touches [of secondary_port s1] show ?thesis
      by (blast intro: touches_only_trans)
  qed
qed

lemma write_swap_loop_touches:
  "write_swap_loop n IO_BASE1 src s = Ok (r, s') \<Longrightarrow> touches_only secondary_port s s'"
proof (induction n arbitrary: src s)
  case 0
  then show ?case by (simp add: touches_only_refl)
next
  case (Suc n)
  from Suc.prems obtain ret s1 where w: "idewait IO_BASE1 1 s = Ok (ret, s1)"
    by (cases "idewait IO_BASE1 1 s") auto
  from idewait1_touches [OF w] have t1: "touches_only secondary_port s s1" .
  show ?case
  proof (cases "ret = 0")
    case True
    let ?s2 = "outsl_mem IO_BASE1 src (SECTSIZE div 4) s1"
    from True Suc.prems w have "write_swap_loop n IO_BASE1 (src + SECTSIZE) ?s2 = Ok (r, s')"
      by simp
    from Suc.IH [OF this] have "touches_only secondary_port ?s2 s'" .
    with t1 outsl_mem1_touches [of s1 src "SECTSIZE div 4"] show ?thesis
      by (blast intro: touches_only_trans)
  next
    case False
    with Suc.prems w have "s' = release s1" by auto
    with t1 release_touches [of secondary_port s1] show ?thesis
      by (blast intro: touches_only_trans)
  qed
qed

lemma acquire_touches: "acquire s = Ok s1 \<Longrightarrow> touches_only P s s1"
  by (rule touches_onlyI [of _ _ "[]"]) (auto simp: acquire_def split: if_splits)

lemma read_swap_touches:
  assumes "read_swap secno a s = Ok (r, s')"
  shows "touches_only secondary_port s s'"
proof -
  from assms obtain s1 r2 s2 ret s3 where a: "acquire s = Ok s1"
    and w: "idewait IO_BASE1 0 s1 = Ok (r2, s2)"
    and l: "read_swap_loop 8 IO_BASE1 a (swap_setup secno ATA_CMD_READ s2) = Ok (ret, s3)"
    and fin: "s' = s3 \<or> s' = release s3"
    by (auto simp: read_swap_def bindr_Ok split: option.splits)
  have "touches_only secondary_port s s3"
    using acquire_touches [OF a] idewait1_touches [OF w]
      swap_setup_touches [of s2 secno ATA_CMD_READ] read_swap_loop_touches [OF l]
    by (blast intro: touches_only_trans)
  with fin release_touches [of secondary_port s3] show ?thesis
    by (blast intro: touches_only_trans)
qed

lemma write_swap_touches:
  assumes "write_swap secno a s = Ok (r, s')"
  shows "touches_only secondary_port s s'"
proof -
  from assms obtain s1 r2 s2 ret s3 where a: "acquire s = Ok s1"
    and w: "idewait IO_BASE1 0 s1 = Ok (r2, s2)"
    and l: "write_swap_loop 8 IO_BASE1 a (swap_setup secno ATA_CMD_WRITE s2) = Ok (ret, s3)"
    and fin: "s' = s3 \<or> s' = release s3"
    by (auto simp: write_swap_def bindr_Ok split: option.splits)
  have "touches_only secondary_port s s3"
    using acquire_touches [OF a] idewait1_touches [OF w]
      swap_setup_touches [of s2 secno ATA_CMD_WRITE] write_swap_loop_touches [OF l]
    by (blast intro: touches_only_trans)
  with fin release_touches [of secondary_port s3] show ?thesis
    by (blast intro: touches_only_trans)
qed

lemma idestart_dev:
  assumes "idestart K b s = Ok s'"
  shows "\<exists>t'. idestart K b (with_buf b ((bufs s b)\<lparr>dev := d\<rparr>) s) = Ok t' \<and>
     added (with_buf b ((bufs s b)\<lparr>dev := d\<rparr>) s) t' = map (drive_select d) (added s s')"
proof -
  from idestart_Ok [OF assms] have "added s s' = start_io K (bufs s b)"
    by (auto simp: added_def)
  moreover from assms have "\<exists>t'. idestart K b (with_buf b ((bufs s b)\<lparr>dev := d\<rparr>) s) = Ok t' \<and>
     added (with_buf b ((bufs s b)\<lparr>dev := d\<rparr>) s) t' = start_io K ((bufs s b)\<lparr>dev := d\<rparr>)"
    by (auto simp: idestart_eq with_buf_def added_def split: if_splits option.splits)
  ultimately show ?thesis
    by (simp add: start_io_dev)
qed

text \<open>
  C10 (as amended). idestart touches only registers of the primary channel (ports 0x1f0
  to 0x1f7 and the control port 0x3f6), whatever the device id of the request: it writes
  no other port and reads no other port. The device id enters only through bit 4 of the
  byte written to the drive/head register: for any other device id the traffic is the
  same but for that bit. So iderw and ideintr, which reach the hardware for a queued
  request only through idestart and the data port 0x1f0, never touch a register of the
  secondary channel. read_swap and write_swap touch only registers of the secondary
  channel (0x170 to 0x177 and 0x376); the two sets of ports are disjoint. (That the
  secondary registers are touched by the swap path alone is not part of this statement:
  ideinit writes and reads them too.)
\<close>

theorem queued_path_primary_only:
  "(\<forall>s' m. idestart K b s = Ok s' \<or> idestart K b s = Panic m s' \<longrightarrow>
      touches_only primary_port s s') \<and>
   (\<forall>s' d. idestart K b s = Ok s' \<longrightarrow>
      (\<exists>t'. idestart K b (with_buf b ((bufs s b)\<lparr>dev := d\<rparr>) s) = Ok t' \<and>
            added (with_buf b ((bufs s b)\<lparr>dev := d\<rparr>) s) t' = map (drive_select d) (added s s'))) \<and>
   (\<forall>oc s' m. iderw K b s = Ok (oc, s') \<or> iderw K b s = Panic m s' \<longrightarrow>
      touches_only primary_port s s') \<and>
   (\<forall>s' m. ideintr K s = Ok s' \<or> ideintr K s = Panic m s' \<longrightarrow>
      touches_only primary_port s s') \<and>
   (\<forall>secno a r s'. read_swap secno a s = Ok (r, s') \<or> write_swap secno a s = Ok (r, s') \<longrightarrow>
      touches_only secondary_port s s') \<and>
   (\<forall>p. \<not> (primary_port p \<and> secondary_port p))"
proof (intro conjI allI impI)
  fix s' m assume "idestart K b s = Ok s' \<or> idestart K b s = Panic m s'"
  then show "touches_only primary_port s s'" by (rule idestart_touches)
next
  fix s' d assume "idestart K b s = Ok s'"
  then show "\<exists>t'. idestart K b (with_buf b ((bufs s b)\<lparr>dev := d\<rparr>) s) = Ok t' \<and>
            added (with_buf b ((bufs s b)\<lparr>dev := d\<rparr>) s) t' = map (drive_select d) (added s s')"
    by (rule idestart_dev)
next
  fix oc s' m assume "iderw K b s = Ok (oc, s') \<or> iderw K b s = Panic m s'"
  then show "touches_only primary_port s s'" by (rule iderw_touches)
next
  fix s' m assume "ideintr K s = Ok s' \<or> ideintr K s = Panic m s'"
  then show "touches_only primary_port s s'" by (rule ideintr_touches)
next
  fix secno a r s'
  assume "read_swap secno a s = Ok (r, s') \<or> write_swap secno a s = Ok (r, s')"
  then show "touches_only secondary_port s s'"
    using read_swap_touches write_swap_touches by blast
next
  fix p show "\<not> (primary_port p \<and> secondary_port p)" by (rule ports_disjoint)
qed

theorem queued_path_primary_only_witness:
  "\<exists>s'. idestart hdr_example 1 (with_buf 1 buf_example idle_example) = Ok s' \<and>
     touches_only primary_port (with_buf 1 buf_example idle_example) s' \<and>
     (\<exists>t'. idestart hdr_example 1
             (with_buf 1 ((bufs (with_buf 1 buf_example idle_example) 1)\<lparr>dev := 1\<rparr>)
               (with_buf 1 buf_example idle_example)) = Ok t' \<and>
           added (with_buf 1 ((bufs (with_buf 1 buf_example idle_example) 1)\<lparr>dev := 1\<rparr>)
               (with_buf 1 buf_example idle_example)) t' =
             map (drive_select 1) (added (with_buf 1 buf_example idle_example) s'))"
proof -
  obtain s' where ok: "idestart hdr_example 1 (with_buf 1 buf_example idle_example) = Ok s'"
    using idestart_example [of buf_example] by (simp add: buf_example_simps)
  from queued_path_primary_only [of hdr_example 1 "with_buf 1 buf_example idle_example"] ok
  show ?thesis by blast
qed

text \<open>
  C10 as stated fails in its last clause: the registers of the secondary channel are not
  touched by the swap path alone. ideinit, on a machine where both disks answer, returns
  having written the drive/head register 0x176 of the secondary channel.
\<close>

theorem ideinit_secondary_counterexample:
  "returns (ideinit boot_example) \<and>
   final_trace (ideinit boot_example) = [Outb 0x1f6 0xf0, Outb 0x176 0xe0, Outb 0x1f6 0xe0] \<and>
   secondary_port 0x176 \<and> \<not> primary_port 0x176"
  by (simp add: ideinit_example booted_example_def secondary_port_def primary_port_def)

end
